theory Spec2Isabelle
  imports Main "HOL-Library.Countable"
begin

section \<open>Errors\<close>

text \<open>
  \<^verbatim>\<open>main.py\<close> signals every failure by raising. \<open>HTTPException status detail\<close> is
  FastAPI's exception with the status code and the detail string the handler gives it.
  \<open>Unhandled\<close> stands for any other exception that leaves a handler (a storage call that
  raises); the framework answers it with status 500.
\<close>

datatype error = HTTPException nat string | Unhandled

fun status_code :: "error \<Rightarrow> nat" where
  "status_code (HTTPException c d) = c"
| "status_code Unhandled = 500"

section \<open>Content policy filter: \<open>check_prompt\<close>\<close>

subsection \<open>Regular expressions\<close>

text \<open>
  The three entries of \<open>BLOCK_PATTERNS\<close> use literals, alternation, grouping, and
  \<^verbatim>\<open>.*\<close>. \<open>AnyChar\<close> is Python's \<^verbatim>\<open>.\<close> without DOTALL: every character but
  the newline. \<open>re.search\<close> is used only for its truth value, so the matcher decides
  whether some substring belongs to the pattern; it does so with derivatives.
\<close>

datatype regex =
    Never
  | Empty
  | Sym char
  | AnyChar
  | Either regex regex
  | Then regex regex
  | Many regex

fun lit :: "string \<Rightarrow> regex" where
  "lit [] = Empty"
| "lit (c # cs) = Then (Sym c) (lit cs)"

fun nullable :: "regex \<Rightarrow> bool" where
  "nullable Never = False"
| "nullable Empty = True"
| "nullable (Sym c) = False"
| "nullable AnyChar = False"
| "nullable (Either r s) = (nullable r \<or> nullable s)"
| "nullable (Then r s) = (nullable r \<and> nullable s)"
| "nullable (Many r) = True"

fun deriv :: "char \<Rightarrow> regex \<Rightarrow> regex" where
  "deriv a Never = Never"
| "deriv a Empty = Never"
| "deriv a (Sym c) = (if a = c then Empty else Never)"
| "deriv a AnyChar = (if a = CHR 0x0A then Never else Empty)"
| "deriv a (Either r s) = Either (deriv a r) (deriv a s)"
| "deriv a (Then r s) =
     (if nullable r then Either (Then (deriv a r) s) (deriv a s)
      else Then (deriv a r) s)"
| "deriv a (Many r) = Then (deriv a r) (Many r)"

text \<open>\<open>match_here r s\<close>: some prefix of \<open>s\<close> matches \<open>r\<close> (the truth value of \<open>re.match\<close>).\<close>

fun match_here :: "regex \<Rightarrow> string \<Rightarrow> bool" where
  "match_here r [] = nullable r"
| "match_here r (c # cs) = (nullable r \<or> match_here (deriv c r) cs)"

text \<open>\<open>re_search r s\<close>: a match starts at some position of \<open>s\<close> (the truth value of \<open>re.search\<close>).\<close>

fun re_search :: "regex \<Rightarrow> string \<Rightarrow> bool" where
  "re_search r [] = match_here r []"
| "re_search r (c # cs) = (match_here r (c # cs) \<or> re_search r cs)"

text \<open>
  What a pattern denotes: the set of strings it matches. The matcher is checked against it
  below (\<open>re_search_lang\<close>).
\<close>

inductive_set repeats :: "string set \<Rightarrow> string set" for A :: "string set" where
  none: "[] \<in> repeats A"
| more: "u \<in> A \<Longrightarrow> v \<in> repeats A \<Longrightarrow> u @ v \<in> repeats A"

fun lang :: "regex \<Rightarrow> string set" where
  "lang Never = {}"
| "lang Empty = {[]}"
| "lang (Sym c) = {[c]}"
| "lang AnyChar = {[a] | a. a \<noteq> CHR 0x0A}"
| "lang (Either r s) = lang r \<union> lang s"
| "lang (Then r s) = {u @ v | u v. u \<in> lang r \<and> v \<in> lang s}"
| "lang (Many r) = repeats (lang r)"

subsection \<open>\<open>str.lower\<close>\<close>

text \<open>
  A prompt is a Python \<open>str\<close>; the model reads each \<open>char\<close> as one code point, which covers
  the code points 0 to 255, and \<open>length\<close> is Python's \<open>len\<close>. On that range \<open>str.lower\<close>
  maps A to Z and the capital letters U+00C0 to U+00DE (the sign U+00D7 apart) 32 places up and
  leaves the rest alone.
\<close>

definition lower_char :: "char \<Rightarrow> char" where
  "lower_char c =
     (let n = (of_char c :: nat) in
      if (65 \<le> n \<and> n \<le> 90) \<or> (192 \<le> n \<and> n \<le> 222 \<and> n \<noteq> 215)
      then char_of (n + 32) else c)"

definition lower :: "string \<Rightarrow> string" where
  "lower s = map lower_char s"

subsection \<open>The filter\<close>

text \<open>
  \<^verbatim>\<open>BLOCK_PATTERNS = [r"(ignore|bypass).*(rules|system)",
                    r"(hack|crack|steal|ddos)", r"(admin|root|password)"]\<close>
\<close>

definition BLOCK_PATTERNS :: "regex list" where
  "BLOCK_PATTERNS =
     [Then (Either (lit ''ignore'') (lit ''bypass''))
        (Then (Many AnyChar) (Either (lit ''rules'') (lit ''system''))),
      Either (lit ''hack'') (Either (lit ''crack'') (Either (lit ''steal'') (lit ''ddos''))),
      Either (lit ''admin'') (Either (lit ''root'') (lit ''password''))]"

text \<open>The \<open>for p in BLOCK_PATTERNS\<close> loop: the first pattern found raises.\<close>

fun check_patterns :: "regex list \<Rightarrow> string \<Rightarrow> error + unit" where
  "check_patterns [] prompt = Inr ()"
| "check_patterns (p # ps) prompt =
     (if re_search p (lower prompt) then Inl (HTTPException 400 ''Prompt blocked by policy'')
      else check_patterns ps prompt)"

definition check_prompt :: "string \<Rightarrow> error + unit" where
  "check_prompt prompt =
     (if length prompt > 4000 then Inl (HTTPException 400 ''Prompt too long'')
      else check_patterns BLOCK_PATTERNS prompt)"


section \<open>External libraries\<close>

subsection \<open>UTF-8\<close>

text \<open>
  \<open>plain.encode()\<close>: the UTF-8 bytes of a string of code points 0 to 255. A code point
  below 128 is one byte, any other two.
\<close>

definition utf8_char :: "char \<Rightarrow> string" where
  "utf8_char c =
     (let n = (of_char c :: nat) in
      if n < 128 then [c] else [char_of (192 + n div 64), char_of (128 + n mod 64)])"

definition utf8 :: "string \<Rightarrow> string" where
  "utf8 s = concat (map utf8_char s)"

subsection \<open>JSON\<close>

text \<open>
  Modelled from the library's documentation: the conversion tables of the \<open>json\<close> module.
  \<open>pyval\<close> holds the Python values that \<open>json.dumps\<close> takes (floats left out), with
  a dictionary as the list of its items in insertion order. \<open>to_json\<close> is the table of
  \<open>json.dumps\<close>: a tuple becomes an array like a list, and a dictionary key that is an
  integer, a boolean or \<open>None\<close> becomes the string that prints it. \<open>from_json\<close> is the
  table of \<open>json.loads\<close>: an array becomes a list, an object a dictionary with string
  keys in which a repeated name keeps its first place and its last value.
\<close>

datatype pykey = KStr string | KInt int | KBool bool | KNone

datatype pyval =
    VNone
  | VBool bool
  | VInt int
  | VStr string
  | VList "pyval list"
  | VTuple "pyval list"
  | VDict "(pykey \<times> pyval) list"

datatype json =
    JNull
  | JBool bool
  | JNum int
  | JStr string
  | JArr "json list"
  | JObj "(string \<times> json) list"

instance json :: countable
  by countable_datatype

fun show_nat :: "nat \<Rightarrow> string" where
  "show_nat n =
     (if n < 10 then [char_of (48 + n)]
      else show_nat (n div 10) @ [char_of (48 + n mod 10)])"

declare show_nat.simps [simp del]

definition show_int :: "int \<Rightarrow> string" where
  "show_int i = (if i < 0 then ''-'' @ show_nat (nat (- i)) else show_nat (nat i))"

fun key_str :: "pykey \<Rightarrow> string" where
  "key_str (KStr s) = s"
| "key_str (KInt i) = show_int i"
| "key_str (KBool b) = (if b then ''true'' else ''false'')"
| "key_str KNone = ''null''"

primrec to_json :: "pyval \<Rightarrow> json" where
  "to_json VNone = JNull"
| "to_json (VBool b) = JBool b"
| "to_json (VInt i) = JNum i"
| "to_json (VStr s) = JStr s"
| "to_json (VList xs) = JArr (map to_json xs)"
| "to_json (VTuple xs) = JArr (map to_json xs)"
| "to_json (VDict kvs) = JObj (map (map_prod key_str to_json) kvs)"






text \<open>Python's truth value of a value, for \<open>meta or {}\<close>.\<close>

fun falsy :: "pyval \<Rightarrow> bool" where
  "falsy VNone = True"
| "falsy (VBool b) = (\<not> b)"
| "falsy (VInt i) = (i = 0)"
| "falsy (VStr s) = (s = [])"
| "falsy (VList xs) = (xs = [])"
| "falsy (VTuple xs) = (xs = [])"
| "falsy (VDict kvs) = (kvs = [])"

subsection \<open>The parameters\<close>

text \<open>
  None of \<open>bcrypt\<close>, \<open>json\<close> and \<open>Fernet\<close> is code of this repository. What the
  model cannot compute it takes as a parameter:
  \<^item> \<open>digest salt password\<close>, the bcrypt function proper, from a 29-byte salt (prefix and
    cost included) and a password to the rest of the hash;
  \<^item> \<open>valid_salt\<close>, the 29-byte strings that bcrypt takes as a salt;
  \<^item> \<open>truncates\<close>, whether the installed bcrypt cuts a password to its first 72 bytes
    (the releases before 5.0) or raises \<open>ValueError\<close> on a longer one (5.0 and later);
  \<^item> \<open>refused\<close>, the passwords the installed bcrypt refuses for another reason (a NUL
    byte, in the releases that test for one);
  \<^item> \<open>fernet_decrypt\<close>, with \<open>None\<close> for \<open>InvalidToken\<close>; \<open>fernet.encrypt\<close> draws a
    fresh IV and reads the clock, so it is a parameter of each call instead;
  \<^item> \<open>json_encode\<close> and \<open>json_decode\<close>, the text of a JSON value as bytes and its
    parser, with \<open>None\<close> for a decoding error.
\<close>

record lib =
  truncates :: bool
  refused :: "string \<Rightarrow> bool"
  valid_salt :: "string \<Rightarrow> bool"
  digest :: "string \<Rightarrow> string \<Rightarrow> string"
  fernet_decrypt :: "string \<Rightarrow> string option"
  json_encode :: "json \<Rightarrow> string"
  json_decode :: "string \<Rightarrow> json option"

subsection \<open>bcrypt\<close>

text \<open>
  Modelled from the library's documentation: \<open>bcrypt.hashpw(password, salt)\<close> returns the
  salt followed by the digest, reads the salt from the first 29 bytes of its second argument
  (so that a hash can stand for its salt), and raises \<open>ValueError\<close> (\<open>None\<close>) on an
  invalid salt or a password it does not take. \<open>bcrypt.checkpw(password, hashed)\<close> hashes
  the password under the salt of \<open>hashed\<close> and compares the result with \<open>hashed\<close>.
\<close>

definition hashpw :: "lib \<Rightarrow> string \<Rightarrow> string \<Rightarrow> string option" where
  "hashpw l password salt =
     (if length salt < 29 \<or> \<not> valid_salt l (take 29 salt) \<or> refused l password then None
      else if length password > 72 then
        (if truncates l then Some (take 29 salt @ digest l (take 29 salt) (take 72 password))
         else None)
      else Some (take 29 salt @ digest l (take 29 salt) password))"

definition checkpw :: "lib \<Rightarrow> string \<Rightarrow> string \<Rightarrow> bool option" where
  "checkpw l password hashed = map_option (\<lambda>h. h = hashed) (hashpw l password hashed)"

subsection \<open>The helpers of \<open>main.py\<close>\<close>

text \<open>
  The digest is ASCII, so \<open>.decode()\<close> in \<open>hash_key\<close> and \<open>.encode()\<close> in
  \<open>verify_key\<close> cancel on it; the model keeps the digest as it is.
\<close>

definition generate_api_key :: "string \<Rightarrow> string" where
  \<comment> \<open>the argument is what \<open>secrets.token_urlsafe(28)\<close> returned\<close>
  "generate_api_key token = ''vetra_'' @ token"

definition hash_key :: "lib \<Rightarrow> string \<Rightarrow> string \<Rightarrow> string option" where
  \<comment> \<open>the last argument is what \<open>bcrypt.gensalt()\<close> returned\<close>
  "hash_key l plain salt = hashpw l (utf8 plain) salt"

definition verify_key :: "lib \<Rightarrow> string \<Rightarrow> string \<Rightarrow> bool option" where
  "verify_key l plain hashed = checkpw l (utf8 plain) hashed"


definition encrypt_data :: "lib \<Rightarrow> (string \<Rightarrow> string) \<Rightarrow> pyval \<Rightarrow> string" where
  \<comment> \<open>the second argument is \<open>fernet.encrypt\<close> at this call\<close>
  "encrypt_data l enc data = enc (json_encode l (to_json data))"



section \<open>Storage\<close>

text \<open>
  The tables \<open>api_keys\<close> and \<open>audit_logs\<close> of \<open>startup\<close>, each a list of rows with
  the next value of its \<open>SERIAL\<close> column, and the two dictionaries of \<open>SyraAI\<close>.
  \<open>key_hash\<close> is optional because \<open>ask\<close> guards against a missing one; the other
  columns always hold what \<open>create_key\<close> or the column default wrote. The handler
  increments \<open>uses\<close> only below \<open>max_uses\<close>, so the increment stays inside the column's
  integer range and the model uses \<open>int\<close>. An \<open>INSERT\<close> that fails leaves the sequence
  where it was (the database may also skip a value; identifiers stay fresh either way).
\<close>

record api_key_row =
  row_id :: int
  email :: string
  key_hash :: "string option"
  uses :: int
  max_uses :: int
  revoked :: bool
  expires_at :: int
  created :: int
  bound_ip :: "string option"

record audit_row =
  audit_id :: int
  api_key_id :: int
  audit_email :: string
  endpoint :: string
  meta :: string
  ts :: int

record state =
  api_keys :: "api_key_row list"
  api_keys_next :: int
  audit_logs :: "audit_row list"
  audit_logs_next :: int
  short_memory :: "string \<rightharpoonup> string list"
  long_memory :: "string \<rightharpoonup> string list"

definition initial :: state where
  \<comment> \<open>after \<open>startup\<close> on an empty database\<close>
  "initial = \<lparr>api_keys = [], api_keys_next = 1, audit_logs = [], audit_logs_next = 1,
     short_memory = Map.empty, long_memory = Map.empty\<rparr>"

definition API_KEY_MAX_USES :: int where
  "API_KEY_MAX_USES = 1000"

definition API_KEY_EXPIRE_DAYS :: int where
  "API_KEY_EXPIRE_DAYS = 30"

section \<open>Issuing a credential: \<open>create_key\<close>\<close>

text \<open>
  What one call of \<open>create_key\<close> reads from outside: the session's \<open>user_email\<close>, the
  client's host, \<open>int(time.time())\<close>, the random token and salt, and whether the
  \<open>INSERT\<close> goes through. A storage call that raises, like \<open>hash_key\<close> when bcrypt
  raises, leaves the handler as \<open>Unhandled\<close>.
\<close>

record create_ctx =
  session_email :: "string option"
  client_host :: "string option"
  now :: int
  token :: string
  salt :: string
  insert_key_ok :: bool

definition create_key :: "lib \<Rightarrow> create_ctx \<Rightarrow> state \<Rightarrow> (error + string \<times> string) \<times> state" where
  "create_key l c s =
     (case session_email c of
        None \<Rightarrow> (Inl (HTTPException 401 ''Not logged in''), s)
      | Some em \<Rightarrow>
          if em = [] then (Inl (HTTPException 401 ''Not logged in''), s)
          else
            let key_plain = generate_api_key (token c) in
            (case hash_key l key_plain (salt c) of
               None \<Rightarrow> (Inl Unhandled, s)
             | Some key_hash' \<Rightarrow>
                 let expires = now c + API_KEY_EXPIRE_DAYS * 24 * 60 * 60
                 in if \<not> insert_key_ok c then (Inl Unhandled, s)
                    else
                      (Inr (key_plain, ''Save now, will not be shown again.''),
                       s\<lparr>api_keys := api_keys s @
                            [\<lparr>row_id = api_keys_next s, email = em, key_hash = Some key_hash',
                              uses = 0, max_uses = API_KEY_MAX_USES, revoked = False,
                              expires_at = expires, created = now c,
                              bound_ip = client_host c\<rparr>],
                          api_keys_next := api_keys_next s + 1\<rparr>)))"

section \<open>The request path: \<open>ask\<close>\<close>

text \<open>
  What one call of \<open>ask\<close> reads from outside: the two readings of \<open>int(time.time())\<close>
  (in the scan and in \<open>record_audit\<close>), \<open>datetime.utcnow().isoformat()\<close>, what
  \<open>fernet.encrypt\<close> returns, whether each of the three storage calls goes through, and
  the order of the rows that the \<open>SELECT\<close> returns. The query has no \<open>ORDER BY\<close>, so the
  database is free in that order at every call: \<open>fetch_rank\<close> is the place it gives to the
  row with a given identifier, and the rows come sorted by it. The \<open>limiter.limit\<close>
  decorator belongs to \<open>slowapi\<close> and acts before the handler body; the model starts at
  the body.
\<close>

record ctx =
  clock :: int
  audit_clock :: int
  utcnow :: string
  fernet_encrypt :: "string \<Rightarrow> string"
  fetch_rank :: "int \<Rightarrow> nat"
  fetch_ok :: bool
  update_ok :: bool
  insert_ok :: bool

record request =
  authorization :: "string option"
  prompt :: string

text \<open>
  \<open>r.get("key_hash") and verify_key(key, r["key_hash"])\<close>; \<open>None\<close> when \<open>verify_key\<close>
  raises.
\<close>

definition row_matches :: "lib \<Rightarrow> string \<Rightarrow> api_key_row \<Rightarrow> bool option" where
  "row_matches l key r =
     (case key_hash r of
        None \<Rightarrow> Some False
      | Some h \<Rightarrow> if h = [] then Some False else verify_key l key h)"

text \<open>
  The \<open>for r in rows\<close> loop of \<open>ask\<close>. \<open>Inr None\<close> is the loop ending with
  \<open>valid = False\<close>; \<open>Inr (Some (email, api_key_id))\<close> is the \<open>break\<close> with
  \<open>valid = True\<close>.
\<close>

fun scan_rows :: "lib \<Rightarrow> string \<Rightarrow> int \<Rightarrow> api_key_row list \<Rightarrow> error + (string \<times> int) option" where
  "scan_rows l key t [] = Inr None"
| "scan_rows l key t (r # rows) =
     (case row_matches l key r of
        None \<Rightarrow> Inl Unhandled
      | Some False \<Rightarrow> scan_rows l key t rows
      | Some True \<Rightarrow>
          if expires_at r < t then Inl (HTTPException 403 ''API key expired'')
          else if uses r \<ge> max_uses r then Inl (HTTPException 403 ''Usage limit reached'')
          else Inr (Some (email r, row_id r)))"

text \<open>\<open>SELECT * FROM api_keys WHERE revoked=false\<close>: the rows, and the rows as one call gets them.\<close>

definition active :: "state \<Rightarrow> api_key_row list" where
  "active s = filter (\<lambda>r. \<not> revoked r) (api_keys s)"

definition fetch :: "ctx \<Rightarrow> state \<Rightarrow> api_key_row list" where
  "fetch c s = sort_key (\<lambda>r. fetch_rank c (row_id r)) (active s)"

text \<open>\<open>UPDATE api_keys SET uses=uses+1 WHERE id=$1\<close>\<close>

definition bump_uses :: "int \<Rightarrow> api_key_row list \<Rightarrow> api_key_row list" where
  "bump_uses k rows = map (\<lambda>r. if row_id r = k then r\<lparr>uses := uses r + 1\<rparr> else r) rows"

text \<open>
  Verification, from the \<open>SELECT\<close> to the \<open>UPDATE\<close> of \<open>ask\<close>: the scan, the
  \<open>if not valid\<close> test and the increment.
\<close>

definition verify :: "lib \<Rightarrow> ctx \<Rightarrow> string \<Rightarrow> state \<Rightarrow> (error + string \<times> int) \<times> state" where
  "verify l c key s =
     (if \<not> fetch_ok c then (Inl Unhandled, s)
      else
        case scan_rows l key (clock c) (fetch c s) of
          Inl e \<Rightarrow> (Inl e, s)
        | Inr None \<Rightarrow> (Inl (HTTPException 403 ''Invalid API key''), s)
        | Inr (Some (em, k)) \<Rightarrow>
            if \<not> update_ok c then (Inl Unhandled, s)
            else (Inr (em, k), s\<lparr>api_keys := bump_uses k (api_keys s)\<rparr>))"

definition record_audit ::
  "lib \<Rightarrow> ctx \<Rightarrow> int \<Rightarrow> string \<Rightarrow> string \<Rightarrow> pyval \<Rightarrow> state \<Rightarrow> (error + unit) \<times> state" where
  "record_audit l c k em ep data s =
     (let meta' = (if falsy data then VDict [] else data);
          encrypted_meta = encrypt_data l (fernet_encrypt c) meta'
      in if \<not> insert_ok c then (Inl Unhandled, s)
         else
           (Inr (),
            s\<lparr>audit_logs := audit_logs s @
                 [\<lparr>audit_id = audit_logs_next s, api_key_id = k, audit_email = em,
                   endpoint = ep, meta = encrypted_meta, ts = audit_clock c\<rparr>],
               audit_logs_next := audit_logs_next s + 1\<rparr>))"

subsection \<open>The two brains\<close>

record answer =
  answer_text :: string
  reason :: string

definition vetra_respond :: "string \<Rightarrow> string \<Rightarrow> answer" where
  "vetra_respond user p =
     \<lparr>answer_text = ''Vetra AI processed: '' @ take 200 p, reason = ''Original Vetra logic''\<rparr>"

definition setdefault_append :: "(string \<rightharpoonup> string list) \<Rightarrow> string \<Rightarrow> string \<Rightarrow> (string \<rightharpoonup> string list)" where
  \<comment> \<open>\<open>m.setdefault(user, []).append(p)\<close>\<close>
  "setdefault_append m user p = m(user \<mapsto> (case m user of None \<Rightarrow> [] | Some ps \<Rightarrow> ps) @ [p])"

definition last10 :: "string list \<Rightarrow> string list" where
  \<comment> \<open>the slice \<open>[-10:]\<close>\<close>
  "last10 ps = drop (length ps - 10) ps"

definition syra_respond :: "string \<Rightarrow> string \<Rightarrow> state \<Rightarrow> answer \<times> state" where
  "syra_respond user p s =
     (let sm = setdefault_append (short_memory s) user p;
          sm' = sm(user \<mapsto> last10 (case sm user of None \<Rightarrow> [] | Some ps \<Rightarrow> ps));
          lm = setdefault_append (long_memory s) user p
      in (\<lparr>answer_text = ''Syra AI processed: '' @ rev p,
           reason = ''Prompt length '' @ show_nat (length p)\<rparr>,
          s\<lparr>short_memory := sm', long_memory := lm\<rparr>))"

subsection \<open>The handler\<close>

record response =
  vetra :: answer
  syra :: answer
  user :: string
  time :: string

text \<open>The dictionary \<open>{"prompt_len": len(data.prompt)}\<close>.\<close>

definition prompt_meta :: "string \<Rightarrow> pyval" where
  "prompt_meta p = VDict [(KStr ''prompt_len'', VInt (int (length p)))]"

definition ask :: "lib \<Rightarrow> ctx \<Rightarrow> request \<Rightarrow> state \<Rightarrow> (error + response) \<times> state" where
  "ask l c rq s =
     (case check_prompt (prompt rq) of
        Inl e \<Rightarrow> (Inl e, s)
      | Inr _ \<Rightarrow>
          (case authorization rq of
             None \<Rightarrow> (Inl (HTTPException 401 ''Missing API key''), s)
           | Some key \<Rightarrow>
               if key = [] then (Inl (HTTPException 401 ''Missing API key''), s)
               else
                 (case verify l c key s of
                    (Inl e, s1) \<Rightarrow> (Inl e, s1)
                  | (Inr (em, k), s1) \<Rightarrow>
                      (case record_audit l c k em ''/ask'' (prompt_meta (prompt rq)) s1 of
                         (Inl e, s2) \<Rightarrow> (Inl e, s2)
                       | (Inr _, s2) \<Rightarrow>
                           let vetra_resp = vetra_respond em (prompt rq);
                               (syra_resp, s3) = syra_respond em (prompt rq) s2
                           in (Inr \<lparr>vetra = vetra_resp, syra = syra_resp, user = em,
                                     time = utcnow c\<rparr>, s3)))))"

section \<open>Revocation\<close>

text \<open>
  Modelled from the spec: \<open>Revoke(credentialId)\<close>. \<^verbatim>\<open>main.py\<close> has the column
  \<open>revoked\<close> and reads it in \<open>ask\<close>, but no handler writes it; the spec's operation
  "sets \<open>revoked=true\<close>" on the credential with the given id and has no failure of its own.
\<close>

definition revoke :: "int \<Rightarrow> state \<Rightarrow> state" where
  "revoke k s =
     s\<lparr>api_keys := map (\<lambda>r. if row_id r = k then r\<lparr>revoked := True\<rparr> else r) (api_keys s)\<rparr>"

section \<open>Runs of the system\<close>

text \<open>
  What the scan of a list of rows comes to before it looks at expiry and quota: the first row
  that \<open>verify_key\<close> accepts, none, or the exception of \<open>verify_key\<close> on a row before
  any was accepted.
\<close>

fun first_match :: "lib \<Rightarrow> string \<Rightarrow> api_key_row list \<Rightarrow> error + api_key_row option" where
  "first_match l key [] = Inr None"
| "first_match l key (r # rows) =
     (case row_matches l key r of
        None \<Rightarrow> Inl Unhandled
      | Some False \<Rightarrow> first_match l key rows
      | Some True \<Rightarrow> Inr (Some r))"

text \<open>
  \<open>r\<close> is the one active credential that the plaintext belongs to: identifiers are
  pairwise different, \<open>r\<close> is active, and \<open>verify_key\<close> returns on every active row,
  with \<open>True\<close> on \<open>r\<close> alone.
\<close>

definition sole_match :: "lib \<Rightarrow> string \<Rightarrow> state \<Rightarrow> api_key_row \<Rightarrow> bool" where
  "sole_match l key s r =
     (distinct (map row_id (api_keys s)) \<and> r \<in> set (active s) \<and>
      list_all (\<lambda>x. row_matches l key x = Some (row_id x = row_id r)) (active s))"

text \<open>Verification called again and again with one plaintext, once per element of the list.\<close>

fun verify_calls :: "lib \<Rightarrow> string \<Rightarrow> ctx list \<Rightarrow> state \<Rightarrow> (error + string \<times> int) list \<times> state" where
  "verify_calls l key [] s = ([], s)"
| "verify_calls l key (c # cs) s =
     (case verify l c key s of
        (res, s1) \<Rightarrow> (case verify_calls l key cs s1 of (rs, s2) \<Rightarrow> (res # rs, s2)))"

text \<open>How many successful verifications a credential still has.\<close>

definition quota_left :: "api_key_row \<Rightarrow> nat" where
  "quota_left r = nat (max_uses r - uses r)"

text \<open>One operation applied to the state: a credential issued, a request handled, a revocation.\<close>

inductive step :: "lib \<Rightarrow> state \<Rightarrow> state \<Rightarrow> bool" for l :: lib where
  issue: "step l s (snd (create_key l c s))"
| handle: "step l s (snd (ask l c rq s))"
| revocation: "step l s (revoke k s)"

text \<open>The identifiers of the table are pairwise different and below the next serial value.\<close>

definition ids_fresh :: "state \<Rightarrow> bool" where
  "ids_fresh s =
     (distinct (map row_id (api_keys s)) \<and> list_all (\<lambda>r. row_id r < api_keys_next s) (api_keys s))"

definition within_quota :: "state \<Rightarrow> bool" where
  "within_quota s = list_all (\<lambda>r. uses r \<le> max_uses r) (api_keys s)"

text \<open>
  Two invariants of a run. \<open>sound\<close>: fresh identifiers and every counter within its
  quota. \<open>pinned k P\<close>: the identifier \<open>k\<close> has been issued and every row that carries it
  satisfies \<open>P\<close>.
\<close>

definition sound :: "state \<Rightarrow> bool" where
  "sound s = (ids_fresh s \<and> within_quota s)"

definition pinned :: "int \<Rightarrow> (api_key_row \<Rightarrow> bool) \<Rightarrow> state \<Rightarrow> bool" where
  "pinned k P s = (k < api_keys_next s \<and> list_all (\<lambda>x. row_id x \<noteq> k \<or> P x) (api_keys s))"

section \<open>Stand-ins\<close>

text \<open>
  Stand-ins for the libraries and the outside world, to run the model on concrete requests.
  The bcrypt of \<open>stub_lib\<close> is a 5.0 one (it raises over 72 bytes) whose digest is the
  password itself, \<open>stub_lib_old\<close> is the same with the cut to 72 bytes; the Fernet token
  of a text is the text after the letter F; the JSON text of a value is its number in an
  enumeration of all values, in unary.
\<close>

definition stub_lib :: lib where
  "stub_lib = \<lparr>truncates = False, refused = (\<lambda>p. False), valid_salt = (\<lambda>s. True),
               digest = (\<lambda>salt password. password),
               fernet_decrypt = (\<lambda>t. case t of [] \<Rightarrow> None
                                   | c # x \<Rightarrow> if c = CHR ''F'' then Some x else None),
               json_encode = (\<lambda>j. replicate (to_nat j) (CHR ''1'')),
               json_decode = (\<lambda>b. Some (from_nat (length b)))\<rparr>"

definition stub_lib_old :: lib where
  "stub_lib_old = stub_lib\<lparr>truncates := True\<rparr>"

definition stub_salt :: string where
  "stub_salt = replicate 29 (CHR ''$'')"

definition stub_ctx :: "int \<Rightarrow> ctx" where
  "stub_ctx t = \<lparr>clock = t, audit_clock = t, utcnow = ''now'', fernet_encrypt = (\<lambda>x. CHR ''F'' # x),
                 fetch_rank = (\<lambda>k. 0), fetch_ok = True, update_ok = True, insert_ok = True\<rparr>"

text \<open>A row whose digest is the one \<open>stub_lib\<close> gives to a plaintext of ASCII letters.\<close>

definition stub_row :: "int \<Rightarrow> string \<Rightarrow> int \<Rightarrow> int \<Rightarrow> int \<Rightarrow> api_key_row" where
  "stub_row k plain u m e =
     \<lparr>row_id = k, email = ''a@b.c'', key_hash = Some (stub_salt @ plain), uses = u, max_uses = m,
      revoked = False, expires_at = e, created = 0, bound_ip = None\<rparr>"

definition stub_state :: "api_key_row list \<Rightarrow> state" where
  "stub_state rows = initial\<lparr>api_keys := rows, api_keys_next := 1 + int (length rows)\<rparr>"

definition stub_create :: create_ctx where
  "stub_create = \<lparr>session_email = Some ''a@b.c'', client_host = None, now = 0, token = ''t'',
                   salt = stub_salt, insert_key_ok = True\<rparr>"

definition stub_issued :: state where
  "stub_issued = initial\<lparr>api_keys := [stub_row 1 ''vetra_t'' 0 1000 2592000], api_keys_next := 2\<rparr>"

definition stub_ctx_audit_down :: ctx where
  "stub_ctx_audit_down = (stub_ctx 10)\<lparr>insert_ok := False\<rparr>"

text \<open>A plaintext of 73 bytes, and another with the same first 72.\<close>

definition long_key :: string where
  "long_key = replicate 72 (CHR ''a'') @ ''b''"

definition long_key' :: string where
  "long_key' = replicate 72 (CHR ''a'') @ ''c''"


section \<open>Properties of the content policy filter\<close>

text \<open>The matcher agrees with the denotation of patterns.\<close>

lemma nullable_lang: "nullable r \<longleftrightarrow> [] \<in> lang r"
  by (induction r) (auto intro: repeats.none)

lemma repeats_cons_split:
  assumes "x \<in> repeats A" and "x = a # w"
  shows "\<exists>u v. w = u @ v \<and> a # u \<in> A \<and> v \<in> repeats A"
  using assms
proof (induction arbitrary: w)
  case none
  then show ?case by simp
next
  case (more u v)
  show ?case
  proof (cases u)
    case Nil
    with more show ?thesis by simp
  next
    case (Cons b u')
    with more.prems have "b = a" "w = u' @ v" by simp_all
    with more.hyps Cons show ?thesis by blast
  qed
qed

lemma repeats_cons:
  "a # w \<in> repeats A \<longleftrightarrow> (\<exists>u v. w = u @ v \<and> a # u \<in> A \<and> v \<in> repeats A)"
proof
  assume "a # w \<in> repeats A"
  then show "\<exists>u v. w = u @ v \<and> a # u \<in> A \<and> v \<in> repeats A"
    by (rule repeats_cons_split) simp
next
  assume "\<exists>u v. w = u @ v \<and> a # u \<in> A \<and> v \<in> repeats A"
  then obtain u v where "w = u @ v" "a # u \<in> A" "v \<in> repeats A" by blast
  then show "a # w \<in> repeats A"
    using repeats.more [of "a # u" A v] by simp
qed

lemma lang_ThenI: "u \<in> lang r \<Longrightarrow> v \<in> lang s \<Longrightarrow> u @ v \<in> lang (Then r s)"
  by simp blast

lemma deriv_lang: "w \<in> lang (deriv a r) \<longleftrightarrow> a # w \<in> lang r"
proof (induction r arbitrary: w)
  case (Then r s)
  show ?case
  proof
    assume "w \<in> lang (deriv a (Then r s))"
    then consider u v where "w = u @ v" "u \<in> lang (deriv a r)" "v \<in> lang s"
      | "nullable r" "w \<in> lang (deriv a s)"
      by (auto split: if_splits)
    then show "a # w \<in> lang (Then r s)"
    proof cases
      case 1
      with Then.IH(1) have "a # u \<in> lang r" by simp
      with 1 have "(a # u) @ v \<in> lang (Then r s)" by (intro lang_ThenI)
      with 1 show ?thesis by simp
    next
      case 2
      with Then.IH(2) nullable_lang have "[] \<in> lang r" "a # w \<in> lang s" by simp_all
      then have "[] @ (a # w) \<in> lang (Then r s)" by (rule lang_ThenI)
      then show ?thesis by simp
    qed
  next
    assume "a # w \<in> lang (Then r s)"
    then obtain u v where uv: "a # w = u @ v" "u \<in> lang r" "v \<in> lang s" by auto
    show "w \<in> lang (deriv a (Then r s))"
    proof (cases u)
      case Nil
      with uv Then.IH(2) nullable_lang show ?thesis by auto
    next
      case (Cons b u')
      with uv have "b = a" "w = u' @ v" by simp_all
      with uv Cons Then.IH(1) show ?thesis by auto
    qed
  qed
next
  case (Many r)
  show ?case
    using Many.IH by (auto simp: repeats_cons)
qed auto

lemma match_here_lang: "match_here r s \<longleftrightarrow> (\<exists>u v. s = u @ v \<and> u \<in> lang r)"
proof (induction s arbitrary: r)
  case Nil
  then show ?case by (simp add: nullable_lang)
next
  case (Cons c cs)
  have "(\<exists>u v. c # cs = u @ v \<and> u \<in> lang r) \<longleftrightarrow>
        [] \<in> lang r \<or> (\<exists>u v. cs = u @ v \<and> c # u \<in> lang r)"
    by (auto simp: Cons_eq_append_conv)
  with Cons.IH [of "deriv c r"] show ?case
    by (simp add: nullable_lang deriv_lang)
qed

lemma re_search_lang: "re_search r s \<longleftrightarrow> (\<exists>p u v. s = p @ u @ v \<and> u \<in> lang r)"
proof (induction s)
  case Nil
  then show ?case by (simp add: nullable_lang)
next
  case (Cons c cs)
  have "(\<exists>p u v. c # cs = p @ u @ v \<and> u \<in> lang r) \<longleftrightarrow>
        (\<exists>u v. c # cs = u @ v \<and> u \<in> lang r) \<or> (\<exists>p u v. cs = p @ u @ v \<and> u \<in> lang r)"
    (is "?L \<longleftrightarrow> ?A \<or> ?B")
  proof
    assume ?L
    then obtain p u v where e: "c # cs = p @ u @ v" "u \<in> lang r" by blast
    show "?A \<or> ?B"
    proof (cases p)
      case Nil
      with e show ?thesis by auto
    next
      case (Cons b p')
      with e have "cs = p' @ u @ v" by simp
      with e show ?thesis by blast
    qed
  next
    assume "?A \<or> ?B"
    then show ?L
    proof
      assume ?A
      then obtain u v where "c # cs = [] @ u @ v" "u \<in> lang r" by auto
      then show ?L by blast
    next
      assume ?B
      then obtain p u v where "c # cs = (c # p) @ u @ v" "u \<in> lang r" by auto
      then show ?L by blast
    qed
  qed
  with Cons.IH match_here_lang [of r "c # cs"] show ?case by simp
qed

lemma check_patterns_passes:
  "check_patterns ps p = Inr () \<longleftrightarrow> list_all (\<lambda>r. \<not> re_search r (lower p)) ps"
  by (induction ps) simp_all

lemma match_here_nullable: "nullable r \<Longrightarrow> match_here r s"
  by (cases s) simp_all

lemma re_search_here: "match_here r s \<Longrightarrow> re_search r s"
  by (cases s) simp_all

lemma re_search_append: "match_here r s \<Longrightarrow> re_search r (pre @ s)"
  by (induction pre) (simp_all add: re_search_here)

lemma ignore_the_rules_here:
  "match_here (hd BLOCK_PATTERNS) (''ignore the rules'' @ post)"
  by (simp add: BLOCK_PATTERNS_def match_here_nullable)

lemma lower_append: "lower (xs @ ys) = lower xs @ lower ys"
  by (simp add: lower_def)

lemma ignore_the_rules_blocked:
  assumes "lower u = ''ignore the rules''"
  shows "check_patterns BLOCK_PATTERNS (pre @ u @ post) =
           Inl (HTTPException 400 ''Prompt blocked by policy'')"
proof -
  have "re_search (hd BLOCK_PATTERNS) (lower pre @ ''ignore the rules'' @ lower post)"
    by (rule re_search_append) (rule ignore_the_rules_here)
  then have "re_search (hd BLOCK_PATTERNS) (lower (pre @ u @ post))"
    by (simp add: lower_append assms)
  then show ?thesis
    by (simp add: BLOCK_PATTERNS_def)
qed

lemma weather_passes: "check_prompt ''what is the weather'' = Inr ()"
  by code_simp

lemma ignore_example_lower: "lower ''Ignore THE rules'' = ''ignore the rules''"
  by code_simp

text \<open>
  Claim C6. \<open>check_prompt\<close> rejects every text longer than 4000 with "Prompt too long", and
  no text of length at most 4000 is rejected with that reason; a text that contains
  "ignore the rules" in any mix of upper and lower case is rejected (as too long when it
  is, by the policy otherwise); and "what is the weather" passes.
\<close>

theorem check_prompt_policy:
  "(length p > 4000 \<longrightarrow> check_prompt p = Inl (HTTPException 400 ''Prompt too long''))
   \<and> (length q \<le> 4000 \<longrightarrow> check_prompt q \<noteq> Inl (HTTPException 400 ''Prompt too long''))
   \<and> (lower u = ''ignore the rules'' \<longrightarrow>
        check_prompt (pre @ u @ post) =
          Inl (HTTPException 400
                 (if length (pre @ u @ post) > 4000 then ''Prompt too long''
                  else ''Prompt blocked by policy'')))
   \<and> check_prompt ''what is the weather'' = Inr ()"
proof (intro conjI impI)
  assume "length p > 4000"
  then show "check_prompt p = Inl (HTTPException 400 ''Prompt too long'')"
    by (simp add: check_prompt_def)
next
  assume le: "length q \<le> 4000"
  have "check_patterns ps q \<noteq> Inl (HTTPException 400 ''Prompt too long'')" for ps
    by (induction ps) simp_all
  with le show "check_prompt q \<noteq> Inl (HTTPException 400 ''Prompt too long'')"
    by (simp add: check_prompt_def)
next
  assume "lower u = ''ignore the rules''"
  then show "check_prompt (pre @ u @ post) =
      Inl (HTTPException 400
             (if length (pre @ u @ post) > 4000 then ''Prompt too long''
              else ''Prompt blocked by policy''))"
    unfolding check_prompt_def using ignore_the_rules_blocked [of u pre post] by simp
next
  show "check_prompt ''what is the weather'' = Inr ()"
    by (rule weather_passes)
qed

theorem check_prompt_policy_witness:
  "check_prompt (replicate 4001 (CHR ''a'')) = Inl (HTTPException 400 ''Prompt too long'')
   \<and> check_prompt (replicate 4000 (CHR ''a'')) \<noteq> Inl (HTTPException 400 ''Prompt too long'')
   \<and> check_prompt (''please '' @ ''Ignore THE rules'' @ '' now'') =
        Inl (HTTPException 400 ''Prompt blocked by policy'')"
  using check_prompt_policy [of "replicate 4001 (CHR ''a'')" "replicate 4000 (CHR ''a'')"
      "''Ignore THE rules''" "''please ''" "'' now''"]
  by (simp add: ignore_example_lower)


section \<open>Properties of verification\<close>

lemma scan_rows_first:
  "scan_rows l key t rows =
     (case first_match l key rows of
        Inl e \<Rightarrow> Inl Unhandled
      | Inr None \<Rightarrow> Inr None
      | Inr (Some r) \<Rightarrow>
          if expires_at r < t then Inl (HTTPException 403 ''API key expired'')
          else if uses r \<ge> max_uses r then Inl (HTTPException 403 ''Usage limit reached'')
          else Inr (Some (email r, row_id r)))"
  by (induction rows) (simp_all split: option.splits bool.splits)

lemma verify_expired:
  assumes "fetch_ok c" "first_match l key (fetch c s) = Inr (Some r)" "expires_at r < clock c"
  shows "verify l c key s = (Inl (HTTPException 403 ''API key expired''), s)"
  using assms by (simp add: verify_def scan_rows_first)

lemma verify_quota:
  assumes "fetch_ok c" "first_match l key (fetch c s) = Inr (Some r)"
    "\<not> expires_at r < clock c" "uses r \<ge> max_uses r"
  shows "verify l c key s = (Inl (HTTPException 403 ''Usage limit reached''), s)"
  using assms by (simp add: verify_def scan_rows_first)

lemma verify_invalid:
  assumes "fetch_ok c" "first_match l key (fetch c s) = Inr None"
  shows "verify l c key s = (Inl (HTTPException 403 ''Invalid API key''), s)"
  using assms by (simp add: verify_def scan_rows_first)

lemma verify_raises:
  assumes "first_match l key (fetch c s) = Inl e"
  shows "verify l c key s = (Inl Unhandled, s)"
  using assms by (simp add: verify_def scan_rows_first)

lemma verify_success:
  assumes "fetch_ok c" "update_ok c" "first_match l key (fetch c s) = Inr (Some r)"
    "\<not> expires_at r < clock c" "uses r < max_uses r"
  shows "verify l c key s =
           (Inr (email r, row_id r), s\<lparr>api_keys := bump_uses (row_id r) (api_keys s)\<rparr>)"
  using assms by (simp add: verify_def scan_rows_first)

lemma ask_verify:
  assumes "check_prompt (prompt rq) = Inr ()" "authorization rq = Some key" "key \<noteq> []"
    "verify l c key s = (Inl e, s1)"
  shows "ask l c rq s = (Inl e, s1)"
  using assms by (simp add: ask_def)

lemma set_fetch: "set (fetch c s) = set (active s)"
  by (simp add: fetch_def)

lemma first_match_in: "first_match l key rows = Inr (Some r) \<Longrightarrow> r \<in> set rows \<and> row_matches l key r = Some True"
  by (induction rows) (auto split: option.splits bool.splits)

lemma first_match_active:
  "first_match l key (fetch c s) = Inr (Some r) \<Longrightarrow>
     r \<in> set (api_keys s) \<and> \<not> revoked r \<and> row_matches l key r = Some True"
  using first_match_in [of l key "fetch c s" r] by (auto simp: set_fetch active_def)

lemma first_match_none:
  "list_all (\<lambda>x. row_matches l key x = Some False) rows \<Longrightarrow> first_match l key rows = Inr None"
  by (induction rows) simp_all

subsection \<open>Stand-ins\<close>

lemma stub_salt_length [simp]: "length stub_salt = 29"
  by (simp add: stub_salt_def)

lemma stub_salt_not_empty [simp]: "stub_salt \<noteq> []"
  by (simp add: stub_salt_def)

lemma utf8_examples [simp]:
  "utf8 ''k1'' = ''k1''" "utf8 ''k2'' = ''k2''" "utf8 ''other'' = ''other''"
  "utf8 ''vetra_t'' = ''vetra_t''"
  by (simp_all add: utf8_def utf8_char_def)

lemma utf8_ascii: "list_all (\<lambda>c. (of_char c :: nat) < 128) s \<Longrightarrow> utf8 s = s"
  by (induction s) (simp_all add: utf8_def utf8_char_def)

lemma utf8_long_key [simp]: "utf8 long_key = long_key" "utf8 long_key' = long_key'"
  by (rule utf8_ascii, simp add: long_key_def long_key'_def list_all_iff)+

lemma long_key_length [simp]: "length long_key = 73" "length long_key' = 73"
  by (simp_all add: long_key_def long_key'_def)

lemma stub_verify_key:
  "verify_key stub_lib key (stub_salt @ plain) =
     (if length (utf8 key) > 72 then None else Some (utf8 key = plain))"
  by (simp add: verify_key_def checkpw_def hashpw_def stub_lib_def)

lemma stub_matches [simp]:
  "row_matches stub_lib key (stub_row k plain u m e) =
     (if length (utf8 key) > 72 then None else Some (utf8 key = plain))"
  by (simp add: row_matches_def stub_row_def stub_verify_key)

lemma stub_fetch [simp]: "fetch c (stub_state [stub_row k plain u m e]) = [stub_row k plain u m e]"
  by (simp add: fetch_def active_def stub_state_def stub_row_def)

lemma stub_first_match:
  "first_match stub_lib ''k1'' [stub_row k ''k1'' u m e] = Inr (Some (stub_row k ''k1'' u m e))"
  "first_match stub_lib ''other'' [stub_row k ''k1'' u m e] = Inr None"
  "first_match stub_lib long_key [stub_row k ''k1'' u m e] = Inl Unhandled"
  by simp_all

lemma stub_ctx_sel [simp]:
  "clock (stub_ctx t) = t" "fetch_ok (stub_ctx t)" "update_ok (stub_ctx t)" "insert_ok (stub_ctx t)"
  by (simp_all add: stub_ctx_def)

lemma stub_row_sel [simp]:
  "row_id (stub_row k plain u m e) = k" "uses (stub_row k plain u m e) = u"
  "max_uses (stub_row k plain u m e) = m" "expires_at (stub_row k plain u m e) = e"
  "email (stub_row k plain u m e) = ''a@b.c''" "\<not> revoked (stub_row k plain u m e)"
  by (simp_all add: stub_row_def)

lemma check_hi: "check_prompt ''hi'' = Inr ()"
  by code_simp

lemma check_hack: "check_prompt ''hack'' = Inl (HTTPException 400 ''Prompt blocked by policy'')"
  by code_simp

text \<open>
  Claim C2. When the credential that the plaintext matches (the first row of the scan that
  \<open>verify_key\<close> accepts, in whatever order the \<open>SELECT\<close> returned the active rows) has
  \<open>expires_at\<close> strictly before the current time, verification fails with 403 "API key
  expired" and changes nothing, whatever \<open>uses\<close> and \<open>max_uses\<close> are: the expiry test
  comes before the quota test. The same holds for the whole handler on a request that passes
  the filter and carries that plaintext.
\<close>

theorem expired_before_quota:
  assumes "fetch_ok c" and "first_match l key (fetch c s) = Inr (Some r)"
    and "expires_at r < clock c"
  shows "verify l c key s = (Inl (HTTPException 403 ''API key expired''), s)
         \<and> (check_prompt (prompt rq) = Inr () \<and> authorization rq = Some key \<and> key \<noteq> [] \<longrightarrow>
              ask l c rq s = (Inl (HTTPException 403 ''API key expired''), s))"
  using assms by (simp add: verify_expired ask_verify)

theorem expired_before_quota_witness:
  "verify stub_lib (stub_ctx 100) ''k1'' (stub_state [stub_row 1 ''k1'' 5 5 99]) =
     (Inl (HTTPException 403 ''API key expired''), stub_state [stub_row 1 ''k1'' 5 5 99])
   \<and> ask stub_lib (stub_ctx 100) \<lparr>authorization = Some ''k1'', prompt = ''hi''\<rparr>
        (stub_state [stub_row 1 ''k1'' 0 5 99]) =
     (Inl (HTTPException 403 ''API key expired''), stub_state [stub_row 1 ''k1'' 0 5 99])"
proof -
  have a: "fetch_ok (stub_ctx 100)" by simp
  have e: "expires_at (stub_row 1 ''k1'' u m 99) < clock (stub_ctx 100)" for u m
    by simp
  have f: "first_match stub_lib ''k1'' (fetch (stub_ctx 100) (stub_state [stub_row 1 ''k1'' u m 99]))
      = Inr (Some (stub_row 1 ''k1'' u m 99))" for u m
    by simp
  from expired_before_quota [OF a f e, of 5 5]
    expired_before_quota [OF a f e, of 0 5 "\<lparr>authorization = Some ''k1'', prompt = ''hi''\<rparr>"]
  show ?thesis by (simp add: check_hi)
qed

subsection \<open>Repeated verification\<close>

lemma row_matches_uses [simp]: "row_matches l key (r\<lparr>uses := u\<rparr>) = row_matches l key r"
  by (simp add: row_matches_def)

lemma row_id_bump [simp]: "map row_id (bump_uses k rows) = map row_id rows"
  by (induction rows) (simp_all add: bump_uses_def)

lemma active_bump:
  "active (s\<lparr>api_keys := bump_uses k (api_keys s)\<rparr>) = bump_uses k (active s)"
proof -
  have "filter (\<lambda>r. \<not> revoked r) (bump_uses k rows) = bump_uses k (filter (\<lambda>r. \<not> revoked r) rows)"
    for rows
    by (induction rows) (simp_all add: bump_uses_def)
  then show ?thesis by (simp add: active_def)
qed

lemma first_match_sole:
  assumes "inj_on row_id (set rows)" and "r \<in> set rows"
    and "list_all (\<lambda>x. row_matches l key x = Some (row_id x = row_id r)) rows"
  shows "first_match l key rows = Inr (Some r)"
  using assms
proof (induction rows)
  case Nil
  then show ?case by simp
next
  case (Cons x rows)
  show ?case
  proof (cases "row_id x = row_id r")
    case True
    with Cons.prems(1,2) have "x = r" by (auto dest: inj_onD)
    with Cons.prems(3) show ?thesis by simp
  next
    case False
    from Cons.prems(1) have "inj_on row_id (set rows)" by (simp add: inj_on_def)
    moreover from False Cons.prems(2) have "r \<in> set rows" by auto
    moreover from Cons.prems(3)
    have "list_all (\<lambda>x. row_matches l key x = Some (row_id x = row_id r)) rows" by simp
    ultimately have "first_match l key rows = Inr (Some r)" by (rule Cons.IH)
    with Cons.prems(3) False show ?thesis by simp
  qed
qed

lemma sole_match_first:
  assumes "sole_match l key s r"
  shows "first_match l key (fetch c s) = Inr (Some r)"
proof -
  from assms have d: "distinct (map row_id (api_keys s))" and m: "r \<in> set (active s)"
    and a: "list_all (\<lambda>x. row_matches l key x = Some (row_id x = row_id r)) (active s)"
    by (simp_all add: sole_match_def)
  from d have "inj_on row_id (set (api_keys s))" by (simp add: distinct_map)
  moreover have "set (fetch c s) \<subseteq> set (api_keys s)" by (auto simp: set_fetch active_def)
  ultimately have "inj_on row_id (set (fetch c s))" by (rule inj_on_subset)
  moreover from m have "r \<in> set (fetch c s)" by (simp add: set_fetch)
  moreover from a have "list_all (\<lambda>x. row_matches l key x = Some (row_id x = row_id r)) (fetch c s)"
    by (simp add: list_all_iff set_fetch)
  ultimately show ?thesis by (rule first_match_sole)
qed

lemma bump_member:
  "r \<in> set rows \<Longrightarrow> r\<lparr>uses := uses r + 1\<rparr> \<in> set (bump_uses (row_id r) rows)"
  by (induction rows) (auto simp: bump_uses_def)

lemma bump_keeps_matches:
  "list_all (\<lambda>x. row_matches l key x = Some (row_id x = k)) rows \<Longrightarrow>
     list_all (\<lambda>x. row_matches l key x = Some (row_id x = k)) (bump_uses j rows)"
  by (induction rows) (simp_all add: bump_uses_def)

lemma sole_match_bump:
  assumes "sole_match l key s r"
  shows "sole_match l key (s\<lparr>api_keys := bump_uses (row_id r) (api_keys s)\<rparr>) (r\<lparr>uses := uses r + 1\<rparr>)"
proof -
  from assms have d: "distinct (map row_id (api_keys s))" and m: "r \<in> set (active s)"
    and a: "list_all (\<lambda>x. row_matches l key x = Some (row_id x = row_id r)) (active s)"
    by (simp_all add: sole_match_def)
  from m have "r\<lparr>uses := uses r + 1\<rparr> \<in> set (bump_uses (row_id r) (active s))"
    by (rule bump_member)
  moreover from a
  have "list_all (\<lambda>x. row_matches l key x = Some (row_id x = row_id r)) (bump_uses (row_id r) (active s))"
    by (rule bump_keeps_matches)
  ultimately show ?thesis
    using d by (simp add: sole_match_def active_bump)
qed

lemma verify_calls_quota:
  assumes "sole_match l key s r"
    and "list_all (\<lambda>c. fetch_ok c \<and> update_ok c \<and> \<not> expires_at r < clock c) cs"
  shows "fst (verify_calls l key cs s) =
           replicate (min (length cs) (quota_left r)) (Inr (email r, row_id r)) @
           replicate (length cs - quota_left r) (Inl (HTTPException 403 ''Usage limit reached''))
         \<and> sole_match l key (snd (verify_calls l key cs s))
             (r\<lparr>uses := uses r + int (min (length cs) (quota_left r))\<rparr>)"
  using assms
proof (induction cs arbitrary: s r)
  case Nil
  then show ?case by simp
next
  case (Cons c cs)
  from Cons.prems(2) have ok: "fetch_ok c" "update_ok c" "\<not> expires_at r < clock c"
    and rest: "list_all (\<lambda>c. fetch_ok c \<and> update_ok c \<and> \<not> expires_at r < clock c) cs"
    by simp_all
  have f: "first_match l key (fetch c s) = Inr (Some r)"
    using Cons.prems(1) by (rule sole_match_first)
  show ?case
  proof (cases "uses r < max_uses r")
    case True
    let ?r = "r\<lparr>uses := uses r + 1\<rparr>"
    let ?s = "s\<lparr>api_keys := bump_uses (row_id r) (api_keys s)\<rparr>"
    have v: "verify l c key s = (Inr (email r, row_id r), ?s)"
      using ok f True by (simp add: verify_success)
    have m: "sole_match l key ?s ?r"
      using Cons.prems(1) by (rule sole_match_bump)
    have rest': "list_all (\<lambda>c. fetch_ok c \<and> update_ok c \<and> \<not> expires_at ?r < clock c) cs"
      using rest by simp
    have q: "quota_left r = Suc (quota_left ?r)"
      using True by (simp add: quota_left_def)
    from Cons.IH [OF m rest'] v q show ?thesis
      by (simp add: split_beta algebra_simps)
  next
    case False
    then have q: "quota_left r = 0" by (simp add: quota_left_def)
    have v: "verify l c key s = (Inl (HTTPException 403 ''Usage limit reached''), s)"
      using ok f False by (simp add: verify_quota)
    from Cons.IH [OF Cons.prems(1) rest] v q show ?thesis
      by (simp add: split_beta)
  qed
qed


text \<open>
  Claim C1. Let \<open>r\<close> be the one active credential that the plaintext belongs to. Sequential
  verifications with that plaintext, none of them after the expiry of \<open>r\<close> and with storage
  working, succeed \<open>max_uses - uses\<close> times and fail with 403 "Usage limit reached" from
  then on, in whatever order each \<open>SELECT\<close> returns the rows; the counter ends at
  \<open>max_uses\<close>, or at \<open>uses\<close> plus the number of calls when there were fewer. The
  witness is a credential with \<open>max_uses = 2\<close> beside another one, the second call reading
  the rows in the opposite order: two successes, then the quota error, and \<open>uses = 2\<close>.
\<close>

theorem verify_until_quota:
  assumes "sole_match l key s r"
    and "list_all (\<lambda>c. fetch_ok c \<and> update_ok c \<and> \<not> expires_at r < clock c) cs"
  shows "fst (verify_calls l key cs s) =
           replicate (min (length cs) (quota_left r)) (Inr (email r, row_id r)) @
           replicate (length cs - quota_left r) (Inl (HTTPException 403 ''Usage limit reached''))
         \<and> sole_match l key (snd (verify_calls l key cs s))
             (r\<lparr>uses := uses r + int (min (length cs) (quota_left r))\<rparr>)"
  using assms by (rule verify_calls_quota)

theorem verify_until_quota_witness:
  "fst (verify_calls stub_lib ''k1''
          [stub_ctx 10, (stub_ctx 20)\<lparr>fetch_rank := (\<lambda>k. nat (3 - k))\<rparr>, stub_ctx 30]
          (stub_state [stub_row 1 ''k1'' 0 2 1000, stub_row 2 ''k2'' 0 5 1000])) =
     [Inr (''a@b.c'', 1), Inr (''a@b.c'', 1), Inl (HTTPException 403 ''Usage limit reached'')]
   \<and> sole_match stub_lib ''k1''
        (snd (verify_calls stub_lib ''k1''
                [stub_ctx 10, (stub_ctx 20)\<lparr>fetch_rank := (\<lambda>k. nat (3 - k))\<rparr>, stub_ctx 30]
                (stub_state [stub_row 1 ''k1'' 0 2 1000, stub_row 2 ''k2'' 0 5 1000])))
        (stub_row 1 ''k1'' 2 2 1000)"
proof -
  let ?s = "stub_state [stub_row 1 ''k1'' 0 2 1000, stub_row 2 ''k2'' 0 5 1000]"
  let ?cs = "[stub_ctx 10, (stub_ctx 20)\<lparr>fetch_rank := (\<lambda>k. nat (3 - k))\<rparr>, stub_ctx 30]"
  have m: "sole_match stub_lib ''k1'' ?s (stub_row 1 ''k1'' 0 2 1000)"
    by (simp add: sole_match_def active_def stub_state_def)
  have t: "list_all (\<lambda>c. fetch_ok c \<and> update_ok c \<and> \<not> expires_at (stub_row 1 ''k1'' 0 2 1000) < clock c) ?cs"
    by (simp add: stub_ctx_def)
  have q: "quota_left (stub_row 1 ''k1'' 0 2 1000) = 2"
    by (simp add: quota_left_def)
  have u: "(stub_row 1 ''k1'' 0 2 1000)\<lparr>uses := v\<rparr> = stub_row 1 ''k1'' v 2 1000" for v
    by (simp add: stub_row_def)
  have r2: "replicate 2 x = [x, x]" for x :: "error + string \<times> int"
    by (simp add: numeral_2_eq_2)
  from verify_until_quota [OF m t] show ?thesis
    by (simp add: q u r2 del: verify_calls.simps)
qed

section \<open>The credential codec: \<open>hash_key\<close> and \<open>verify_key\<close>\<close>

lemma hashpw_again:
  assumes "hashpw l password sa = Some h"
  shows "hashpw l password h = Some h"
proof -
  from assms have s: "29 \<le> length sa" "valid_salt l (take 29 sa)" "\<not> refused l password"
    by (auto simp: hashpw_def split: if_splits)
  from assms obtain d where h: "h = take 29 sa @ d"
    by (auto simp: hashpw_def split: if_splits)
  from s(1) have "length (take 29 sa) = 29" by simp
  with h have t: "take 29 h = take 29 sa" "29 \<le> length h" by simp_all
  with assms s show ?thesis
    by (auto simp: hashpw_def split: if_splits)
qed

lemma hashpw_long:
  "\<not> truncates l \<Longrightarrow> length password > 72 \<Longrightarrow> hashpw l password sa = None"
  by (simp add: hashpw_def)

lemma checkpw_hashed:
  assumes "hashpw l q sa = Some h" and "length sa = 29"
    and "\<not> refused l p" and "truncates l \<or> length p \<le> 72"
  shows "checkpw l p h = Some (digest l sa (take 72 p) = digest l sa (take 72 q))"
proof -
  from assms(1,2) have v: "valid_salt l sa"
    by (auto simp: hashpw_def split: if_splits)
  from assms(1,2) have h: "h = sa @ digest l sa (take 72 q)"
    by (auto simp: hashpw_def split: if_splits)
  with assms(2) have t: "take 29 h = sa" "\<not> length h < 29" by simp_all
  have "hashpw l p h = Some (sa @ digest l sa (take 72 p))"
    using assms(3,4) v t by (auto simp: hashpw_def)
  with h show ?thesis by (simp add: checkpw_def)
qed

lemma stub_hash_long:
  "hash_key stub_lib_old long_key' stub_salt = Some (stub_salt @ replicate 72 (CHR ''a''))"
  unfolding hash_key_def utf8_long_key
  by (simp add: hashpw_def stub_lib_old_def stub_lib_def long_key'_def)

lemma stub_verify_long:
  "verify_key stub_lib_old long_key (stub_salt @ replicate 72 (CHR ''a'')) = Some True"
  unfolding verify_key_def utf8_long_key
  by (simp add: checkpw_def hashpw_def stub_lib_old_def stub_lib_def long_key_def)

text \<open>
  Claim C4, as stated, fails at a plaintext of 73 bytes. Where bcrypt raises over 72 bytes,
  \<open>hash_key\<close> gives no digest for it and \<open>verify_key\<close> raises on it, so
  \<open>Compare(p, Hash(p))\<close> is not true; where bcrypt cuts to 72 bytes, the digest of another
  plaintext with the same first 72 bytes is accepted for it.
\<close>

theorem long_plaintext_breaks_round_trip:
  "hash_key stub_lib long_key stub_salt = None
   \<and> verify_key stub_lib long_key (stub_salt @ long_key) = None
   \<and> long_key \<noteq> long_key'
   \<and> hash_key stub_lib_old long_key' stub_salt = Some (stub_salt @ replicate 72 (CHR ''a''))
   \<and> verify_key stub_lib_old long_key (stub_salt @ replicate 72 (CHR ''a'')) = Some True"
proof (intro conjI)
  show "hash_key stub_lib long_key stub_salt = None"
    by (simp add: hash_key_def hashpw_def stub_lib_def)
  show "verify_key stub_lib long_key (stub_salt @ long_key) = None"
    by (simp add: stub_verify_key)
  show "long_key \<noteq> long_key'"
    by (simp add: long_key_def long_key'_def)
  show "hash_key stub_lib_old long_key' stub_salt = Some (stub_salt @ replicate 72 (CHR ''a''))"
    by (rule stub_hash_long)
  show "verify_key stub_lib_old long_key (stub_salt @ replicate 72 (CHR ''a'')) = Some True"
    by (rule stub_verify_long)
qed

text \<open>
  Claim C4, amended. For every plaintext \<open>p\<close> that bcrypt takes (not refused, and of at
  most 72 bytes in UTF-8 unless the installed bcrypt cuts longer ones) and every salt of
  \<open>gensalt\<close>, \<open>hash_key\<close> returns a digest and \<open>verify_key\<close> accepts \<open>p\<close> for it.
  For such \<open>p\<close> and the digest of any \<open>q\<close>, \<open>verify_key\<close> returns without raising, and
  returns false exactly when the bcrypt digests of the first 72 bytes of the two plaintexts
  under that salt differ. Where bcrypt does not cut, a plaintext of more than 72 bytes has no
  digest and makes \<open>verify_key\<close> raise.
\<close>

theorem hash_verify_round_trip:
  "(length sa = 29 \<and> valid_salt l sa \<and> \<not> refused l (utf8 p) \<and>
      (truncates l \<or> length (utf8 p) \<le> 72) \<longrightarrow>
        (\<exists>h. hash_key l p sa = Some h \<and> verify_key l p h = Some True))
   \<and> (hash_key l q sa = Some h \<and> length sa = 29 \<and> \<not> refused l (utf8 p) \<and>
      (truncates l \<or> length (utf8 p) \<le> 72) \<longrightarrow>
        verify_key l p h =
          Some (digest l sa (take 72 (utf8 p)) = digest l sa (take 72 (utf8 q))))
   \<and> (\<not> truncates l \<and> length (utf8 p) > 72 \<longrightarrow>
        hash_key l p sa = None \<and> verify_key l p h = None)"
proof (intro conjI impI)
  assume a: "length sa = 29 \<and> valid_salt l sa \<and> \<not> refused l (utf8 p) \<and>
      (truncates l \<or> length (utf8 p) \<le> 72)"
  then have "hashpw l (utf8 p) sa \<noteq> None"
    by (auto simp: hashpw_def)
  then obtain h where h: "hashpw l (utf8 p) sa = Some h"
    by blast
  then have "hashpw l (utf8 p) h = Some h" by (rule hashpw_again)
  with h show "\<exists>h. hash_key l p sa = Some h \<and> verify_key l p h = Some True"
    by (simp add: hash_key_def verify_key_def checkpw_def)
next
  assume "hash_key l q sa = Some h \<and> length sa = 29 \<and> \<not> refused l (utf8 p) \<and>
      (truncates l \<or> length (utf8 p) \<le> 72)"
  then show "verify_key l p h =
          Some (digest l sa (take 72 (utf8 p)) = digest l sa (take 72 (utf8 q)))"
    using checkpw_hashed [of l "utf8 q" sa h "utf8 p"]
    by (simp add: hash_key_def verify_key_def)
next
  assume "\<not> truncates l \<and> length (utf8 p) > 72"
  then show "hash_key l p sa = None" by (simp add: hash_key_def hashpw_long)
next
  assume "\<not> truncates l \<and> length (utf8 p) > 72"
  then show "verify_key l p h = None"
    by (simp add: verify_key_def checkpw_def hashpw_long)
qed

theorem hash_verify_round_trip_witness:
  "(\<exists>h. hash_key stub_lib ''k1'' stub_salt = Some h \<and> verify_key stub_lib ''k1'' h = Some True)
   \<and> verify_key stub_lib ''k2'' (stub_salt @ ''k1'') = Some False
   \<and> hash_key stub_lib long_key stub_salt = None
   \<and> verify_key stub_lib long_key (stub_salt @ ''k1'') = None"
proof -
  have h: "hash_key stub_lib ''k1'' stub_salt = Some (stub_salt @ ''k1'')"
    by (simp add: hash_key_def hashpw_def stub_lib_def)
  have s: "valid_salt stub_lib stub_salt" "\<not> refused stub_lib x" "\<not> truncates stub_lib"
    "digest stub_lib stub_salt x = x" for x
    by (simp_all add: stub_lib_def)
  from hash_verify_round_trip [of stub_salt stub_lib "''k1''" "''k1''" "stub_salt @ ''k1''"]
  have "\<exists>h. hash_key stub_lib ''k1'' stub_salt = Some h \<and> verify_key stub_lib ''k1'' h = Some True"
    by (simp add: s)
  moreover
  from hash_verify_round_trip [of stub_salt stub_lib "''k2''" "''k1''" "stub_salt @ ''k1''"]
  have "verify_key stub_lib ''k2'' (stub_salt @ ''k1'') = Some False"
    by (simp add: s h)
  moreover
  from hash_verify_round_trip [of stub_salt stub_lib long_key "''k1''" "stub_salt @ ''k1''"]
  have "hash_key stub_lib long_key stub_salt = None \<and>
        verify_key stub_lib long_key (stub_salt @ ''k1'') = None"
    by (simp add: s)
  ultimately show ?thesis by blast
qed


section \<open>The payload cipher: \<open>encrypt_data\<close> and \<open>decrypt_data\<close>\<close>















section \<open>Status codes and the order of the handler's steps\<close>

lemma check_patterns_error:
  "check_patterns ps p = Inl e \<Longrightarrow> e = HTTPException 400 ''Prompt blocked by policy''"
  by (induction ps) (auto split: if_splits)

lemma check_prompt_error:
  "check_prompt p = Inl e \<Longrightarrow>
     e = HTTPException 400 ''Prompt too long'' \<or> e = HTTPException 400 ''Prompt blocked by policy''"
  by (auto simp: check_prompt_def split: if_splits dest: check_patterns_error)

lemma ask_policy: "check_prompt (prompt rq) = Inl e \<Longrightarrow> ask l c rq s = (Inl e, s)"
  by (simp add: ask_def)

lemma ask_missing:
  "check_prompt (prompt rq) = Inr () \<Longrightarrow> authorization rq = None \<or> authorization rq = Some [] \<Longrightarrow>
     ask l c rq s = (Inl (HTTPException 401 ''Missing API key''), s)"
  by (auto simp: ask_def)

lemma verify_error_cases:
  "verify l c key s = (Inl e, s1) \<Longrightarrow>
     s1 = s \<and> e \<in> {Unhandled, HTTPException 403 ''Invalid API key'',
                  HTTPException 403 ''API key expired'', HTTPException 403 ''Usage limit reached''}"
  by (auto simp: verify_def scan_rows_first split: if_splits option.splits sum.splits)

lemma verify_keeps_rest:
  "verify l c key s = (res, s1) \<Longrightarrow>
     audit_logs s1 = audit_logs s \<and> audit_logs_next s1 = audit_logs_next s \<and>
     api_keys_next s1 = api_keys_next s \<and>
     short_memory s1 = short_memory s \<and> long_memory s1 = long_memory s"
  by (auto simp: verify_def split: if_splits sum.splits option.splits)

lemma ask_audit_fails:
  assumes "check_prompt (prompt rq) = Inr ()" "authorization rq = Some key" "key \<noteq> []"
    "verify l c key s = (Inr (em, k), s1)" "\<not> insert_ok c"
  shows "ask l c rq s = (Inl Unhandled, s1)"
  using assms by (simp add: ask_def record_audit_def)

lemma ask_succeeds:
  assumes "check_prompt (prompt rq) = Inr ()" "authorization rq = Some key" "key \<noteq> []"
    "verify l c key s = (Inr (em, k), s1)" "insert_ok c"
  shows "ask l c rq s =
     (Inr \<lparr>vetra = vetra_respond em (prompt rq),
            syra = fst (syra_respond em (prompt rq)
                     (snd (record_audit l c k em ''/ask'' (prompt_meta (prompt rq)) s1))),
            user = em, time = utcnow c\<rparr>,
      snd (syra_respond em (prompt rq)
             (snd (record_audit l c k em ''/ask'' (prompt_meta (prompt rq)) s1))))"
  using assms by (simp add: ask_def record_audit_def split_beta Let_def)

lemma ask_error_details:
  assumes "ask l c rq s = (Inl (HTTPException n d), s1)"
  shows "(n, d) \<in> set [(400, ''Prompt too long''), (400, ''Prompt blocked by policy''),
                       (401, ''Missing API key''), (403, ''Invalid API key''),
                       (403, ''API key expired''), (403, ''Usage limit reached'')]"
proof (cases "check_prompt (prompt rq)")
  case (Inl e)
  with assms have "e = HTTPException n d" by (simp add: ask_def)
  with check_prompt_error [OF Inl] show ?thesis by auto
next
  case (Inr u)
  show ?thesis
  proof (cases "authorization rq = None \<or> authorization rq = Some []")
    case True
    with Inr assms show ?thesis by (auto simp: ask_def)
  next
    case False
    then obtain key where key: "authorization rq = Some key" "key \<noteq> []" by auto
    obtain res s' where v: "verify l c key s = (res, s')" by (cases "verify l c key s")
    show ?thesis
    proof (cases res)
      case (Inl e)
      with Inr key v assms have "e = HTTPException n d" by (simp add: ask_def)
      with verify_error_cases [of l c key s e s'] v Inl show ?thesis by auto
    next
      case (Inr ek)
      with \<open>check_prompt (prompt rq) = Inr u\<close> key v assms show ?thesis
        by (cases ek) (auto simp: ask_def record_audit_def split_beta Let_def split: if_splits)
    qed
  qed
qed

lemma revoked_not_found:
  assumes "list_all (\<lambda>r. revoked r \<or> row_matches l key r = Some False) (api_keys s)"
  shows "first_match l key (fetch c s) = Inr None"
proof -
  from assms have "list_all (\<lambda>r. row_matches l key r = Some False) (fetch c s)"
    by (auto simp: list_all_iff set_fetch active_def)
  then show ?thesis by (rule first_match_none)
qed

lemma long_key_not_empty [simp]: "long_key \<noteq> []"
  by (simp add: long_key_def)

text \<open>
  Claim C7, as stated, fails: a request that passes the filter and carries a plaintext no
  active credential matches is answered with status 403 ("Invalid API key"), not 401.
\<close>

theorem invalid_key_status_403:
  "fst (ask stub_lib (stub_ctx 10) \<lparr>authorization = Some ''other'', prompt = ''hi''\<rparr>
          (stub_state [stub_row 1 ''k1'' 0 5 1000])) =
     Inl (HTTPException 403 ''Invalid API key'')
   \<and> status_code (HTTPException 403 ''Invalid API key'') \<noteq> 401"
proof -
  have "verify stub_lib (stub_ctx 10) ''other'' (stub_state [stub_row 1 ''k1'' 0 5 1000]) =
      (Inl (HTTPException 403 ''Invalid API key''), stub_state [stub_row 1 ''k1'' 0 5 1000])"
    by (rule verify_invalid) (simp_all add: stub_first_match)
  then show ?thesis
    by (simp add: ask_verify check_hi)
qed

text \<open>
  Claim C7, amended. On the request path a policy violation yields 400; a missing
  credential 401 "Missing API key"; an invalid credential, a plaintext that bcrypt compares
  with the digest of every active row and accepts for none, 403 "Invalid API key", and so
  does the plaintext of a revoked credential, since revoked rows are not scanned; an expired
  credential 403 "API key expired"; an exhausted one 403 "Usage limit reached". Where bcrypt
  raises during the scan before a row is accepted (a plaintext over 72 bytes under bcrypt 5,
  a digest that is no bcrypt hash) the exception leaves the handler and the status is 500.
  Every \<open>HTTPException\<close> the handler raises is one of six fixed pairs of status and
  message, which are pairwise different and carry none of the input.
\<close>

theorem ask_status_codes:
  "(check_prompt (prompt rq) = Inl e \<longrightarrow> ask l c rq s = (Inl e, s) \<and> status_code e = 400)
   \<and> (check_prompt (prompt rq) = Inr () \<and> (authorization rq = None \<or> authorization rq = Some []) \<longrightarrow>
        ask l c rq s = (Inl (HTTPException 401 ''Missing API key''), s))
   \<and> (check_prompt (prompt rq) = Inr () \<and> authorization rq = Some key \<and> key \<noteq> [] \<and> fetch_ok c \<longrightarrow>
        (first_match l key (fetch c s) = Inr None \<longrightarrow>
           ask l c rq s = (Inl (HTTPException 403 ''Invalid API key''), s))
      \<and> (list_all (\<lambda>r. revoked r \<or> row_matches l key r = Some False) (api_keys s) \<longrightarrow>
           ask l c rq s = (Inl (HTTPException 403 ''Invalid API key''), s))
      \<and> (first_match l key (fetch c s) = Inr (Some r) \<and> expires_at r < clock c \<longrightarrow>
           ask l c rq s = (Inl (HTTPException 403 ''API key expired''), s))
      \<and> (first_match l key (fetch c s) = Inr (Some r) \<and> \<not> expires_at r < clock c \<and>
           uses r \<ge> max_uses r \<longrightarrow>
           ask l c rq s = (Inl (HTTPException 403 ''Usage limit reached''), s))
      \<and> (first_match l key (fetch c s) = Inl e' \<longrightarrow>
           ask l c rq s = (Inl Unhandled, s) \<and> status_code Unhandled = 500))
   \<and> (ask l c rq s = (Inl (HTTPException n d), s1) \<longrightarrow>
        (n, d) \<in> set [(400, ''Prompt too long''), (400, ''Prompt blocked by policy''),
                       (401, ''Missing API key''), (403, ''Invalid API key''),
                       (403, ''API key expired''), (403, ''Usage limit reached'')])
   \<and> distinct [(400 :: nat, ''Prompt too long''), (400, ''Prompt blocked by policy''),
                (401, ''Missing API key''), (403, ''Invalid API key''),
                (403, ''API key expired''), (403, ''Usage limit reached'')]"
proof (intro conjI impI)
  assume "check_prompt (prompt rq) = Inl e"
  then show "ask l c rq s = (Inl e, s)" by (rule ask_policy)
next
  assume "check_prompt (prompt rq) = Inl e"
  from check_prompt_error [OF this] show "status_code e = 400" by auto
next
  assume "check_prompt (prompt rq) = Inr () \<and> (authorization rq = None \<or> authorization rq = Some [])"
  then show "ask l c rq s = (Inl (HTTPException 401 ''Missing API key''), s)"
    by (simp add: ask_missing)
next
  assume "check_prompt (prompt rq) = Inr () \<and> authorization rq = Some key \<and> key \<noteq> [] \<and> fetch_ok c"
    and "first_match l key (fetch c s) = Inr None"
  then show "ask l c rq s = (Inl (HTTPException 403 ''Invalid API key''), s)"
    by (simp add: ask_verify verify_invalid)
next
  assume "check_prompt (prompt rq) = Inr () \<and> authorization rq = Some key \<and> key \<noteq> [] \<and> fetch_ok c"
    and "list_all (\<lambda>r. revoked r \<or> row_matches l key r = Some False) (api_keys s)"
  then show "ask l c rq s = (Inl (HTTPException 403 ''Invalid API key''), s)"
    by (simp add: ask_verify verify_invalid revoked_not_found)
next
  assume "check_prompt (prompt rq) = Inr () \<and> authorization rq = Some key \<and> key \<noteq> [] \<and> fetch_ok c"
    and "first_match l key (fetch c s) = Inr (Some r) \<and> expires_at r < clock c"
  then show "ask l c rq s = (Inl (HTTPException 403 ''API key expired''), s)"
    by (simp add: ask_verify verify_expired)
next
  assume "check_prompt (prompt rq) = Inr () \<and> authorization rq = Some key \<and> key \<noteq> [] \<and> fetch_ok c"
    and "first_match l key (fetch c s) = Inr (Some r) \<and> \<not> expires_at r < clock c \<and>
           uses r \<ge> max_uses r"
  then show "ask l c rq s = (Inl (HTTPException 403 ''Usage limit reached''), s)"
    by (simp add: ask_verify verify_quota)
next
  assume "check_prompt (prompt rq) = Inr () \<and> authorization rq = Some key \<and> key \<noteq> [] \<and> fetch_ok c"
    and "first_match l key (fetch c s) = Inl e'"
  then show "ask l c rq s = (Inl Unhandled, s)"
    by (simp add: ask_verify verify_raises)
next
  show "status_code Unhandled = 500" by simp
next
  assume "ask l c rq s = (Inl (HTTPException n d), s1)"
  then show "(n, d) \<in> set [(400, ''Prompt too long''), (400, ''Prompt blocked by policy''),
                       (401, ''Missing API key''), (403, ''Invalid API key''),
                       (403, ''API key expired''), (403, ''Usage limit reached'')]"
    by (rule ask_error_details)
next
  show "distinct [(400 :: nat, ''Prompt too long''), (400, ''Prompt blocked by policy''),
                (401, ''Missing API key''), (403, ''Invalid API key''),
                (403, ''API key expired''), (403, ''Usage limit reached'')]"
    by simp
qed

lemma stub_fetch_revoked [simp]:
  "fetch c (stub_state [(stub_row k plain u m e)\<lparr>revoked := True\<rparr>]) = []"
  by (simp add: fetch_def active_def stub_state_def)

lemma stub_matches_revoked [simp]:
  "row_matches stub_lib key ((stub_row k plain u m e)\<lparr>revoked := True\<rparr>) =
     row_matches stub_lib key (stub_row k plain u m e)"
  by (simp add: row_matches_def stub_row_def)

theorem ask_status_codes_witness:
  "ask stub_lib (stub_ctx 10) \<lparr>authorization = Some ''k1'', prompt = ''hack''\<rparr>
       (stub_state [stub_row 1 ''k1'' 0 5 1000]) =
     (Inl (HTTPException 400 ''Prompt blocked by policy''), stub_state [stub_row 1 ''k1'' 0 5 1000])
   \<and> ask stub_lib (stub_ctx 10) \<lparr>authorization = None, prompt = ''hi''\<rparr>
       (stub_state [stub_row 1 ''k1'' 0 5 1000]) =
     (Inl (HTTPException 401 ''Missing API key''), stub_state [stub_row 1 ''k1'' 0 5 1000])
   \<and> ask stub_lib (stub_ctx 10) \<lparr>authorization = Some ''other'', prompt = ''hi''\<rparr>
       (stub_state [stub_row 1 ''k1'' 0 5 1000]) =
     (Inl (HTTPException 403 ''Invalid API key''), stub_state [stub_row 1 ''k1'' 0 5 1000])
   \<and> ask stub_lib (stub_ctx 10) \<lparr>authorization = Some ''k1'', prompt = ''hi''\<rparr>
       (stub_state [(stub_row 1 ''k1'' 0 5 1000)\<lparr>revoked := True\<rparr>]) =
     (Inl (HTTPException 403 ''Invalid API key''),
      stub_state [(stub_row 1 ''k1'' 0 5 1000)\<lparr>revoked := True\<rparr>])
   \<and> ask stub_lib (stub_ctx 10) \<lparr>authorization = Some ''k1'', prompt = ''hi''\<rparr>
       (stub_state [stub_row 1 ''k1'' 0 5 9]) =
     (Inl (HTTPException 403 ''API key expired''), stub_state [stub_row 1 ''k1'' 0 5 9])
   \<and> ask stub_lib (stub_ctx 10) \<lparr>authorization = Some ''k1'', prompt = ''hi''\<rparr>
       (stub_state [stub_row 1 ''k1'' 5 5 1000]) =
     (Inl (HTTPException 403 ''Usage limit reached''), stub_state [stub_row 1 ''k1'' 5 5 1000])
   \<and> ask stub_lib (stub_ctx 10) \<lparr>authorization = Some long_key, prompt = ''hi''\<rparr>
       (stub_state [stub_row 1 ''k1'' 0 5 1000]) =
     (Inl Unhandled, stub_state [stub_row 1 ''k1'' 0 5 1000])"
proof (intro conjI)
  show "ask stub_lib (stub_ctx 10) \<lparr>authorization = Some ''k1'', prompt = ''hack''\<rparr>
       (stub_state [stub_row 1 ''k1'' 0 5 1000]) =
     (Inl (HTTPException 400 ''Prompt blocked by policy''), stub_state [stub_row 1 ''k1'' 0 5 1000])"
    using ask_status_codes [where rq = "\<lparr>authorization = Some ''k1'', prompt = ''hack''\<rparr>"
        and e = "HTTPException 400 ''Prompt blocked by policy''" and l = stub_lib
        and c = "stub_ctx 10" and s = "stub_state [stub_row 1 ''k1'' 0 5 1000]"]
    by (simp add: check_hack)
next
  show "ask stub_lib (stub_ctx 10) \<lparr>authorization = None, prompt = ''hi''\<rparr>
       (stub_state [stub_row 1 ''k1'' 0 5 1000]) =
     (Inl (HTTPException 401 ''Missing API key''), stub_state [stub_row 1 ''k1'' 0 5 1000])"
    using ask_status_codes [where rq = "\<lparr>authorization = None, prompt = ''hi''\<rparr>"
        and l = stub_lib and c = "stub_ctx 10" and s = "stub_state [stub_row 1 ''k1'' 0 5 1000]"]
    by (simp add: check_hi)
next
  show "ask stub_lib (stub_ctx 10) \<lparr>authorization = Some ''other'', prompt = ''hi''\<rparr>
       (stub_state [stub_row 1 ''k1'' 0 5 1000]) =
     (Inl (HTTPException 403 ''Invalid API key''), stub_state [stub_row 1 ''k1'' 0 5 1000])"
    using ask_status_codes [where rq = "\<lparr>authorization = Some ''other'', prompt = ''hi''\<rparr>"
        and l = stub_lib and c = "stub_ctx 10" and s = "stub_state [stub_row 1 ''k1'' 0 5 1000]"
        and key = "''other''"]
    by (simp add: check_hi)
next
  show "ask stub_lib (stub_ctx 10) \<lparr>authorization = Some ''k1'', prompt = ''hi''\<rparr>
       (stub_state [(stub_row 1 ''k1'' 0 5 1000)\<lparr>revoked := True\<rparr>]) =
     (Inl (HTTPException 403 ''Invalid API key''),
      stub_state [(stub_row 1 ''k1'' 0 5 1000)\<lparr>revoked := True\<rparr>])"
    using ask_status_codes [where rq = "\<lparr>authorization = Some ''k1'', prompt = ''hi''\<rparr>"
        and l = stub_lib and c = "stub_ctx 10"
        and s = "stub_state [(stub_row 1 ''k1'' 0 5 1000)\<lparr>revoked := True\<rparr>]"
        and key = "''k1''"]
    by (simp add: check_hi)
next
  show "ask stub_lib (stub_ctx 10) \<lparr>authorization = Some ''k1'', prompt = ''hi''\<rparr>
       (stub_state [stub_row 1 ''k1'' 0 5 9]) =
     (Inl (HTTPException 403 ''API key expired''), stub_state [stub_row 1 ''k1'' 0 5 9])"
    using ask_status_codes [where rq = "\<lparr>authorization = Some ''k1'', prompt = ''hi''\<rparr>"
        and l = stub_lib and c = "stub_ctx 10" and s = "stub_state [stub_row 1 ''k1'' 0 5 9]"
        and key = "''k1''" and r = "stub_row 1 ''k1'' 0 5 9"]
    by (simp add: check_hi)
next
  show "ask stub_lib (stub_ctx 10) \<lparr>authorization = Some ''k1'', prompt = ''hi''\<rparr>
       (stub_state [stub_row 1 ''k1'' 5 5 1000]) =
     (Inl (HTTPException 403 ''Usage limit reached''), stub_state [stub_row 1 ''k1'' 5 5 1000])"
    using ask_status_codes [where rq = "\<lparr>authorization = Some ''k1'', prompt = ''hi''\<rparr>"
        and l = stub_lib and c = "stub_ctx 10" and s = "stub_state [stub_row 1 ''k1'' 5 5 1000]"
        and key = "''k1''" and r = "stub_row 1 ''k1'' 5 5 1000"]
    by (simp add: check_hi)
next
  show "ask stub_lib (stub_ctx 10) \<lparr>authorization = Some long_key, prompt = ''hi''\<rparr>
       (stub_state [stub_row 1 ''k1'' 0 5 1000]) =
     (Inl Unhandled, stub_state [stub_row 1 ''k1'' 0 5 1000])"
    using ask_status_codes [where rq = "\<lparr>authorization = Some long_key, prompt = ''hi''\<rparr>"
        and l = stub_lib and c = "stub_ctx 10" and s = "stub_state [stub_row 1 ''k1'' 0 5 1000]"
        and key = long_key and e' = Unhandled]
    by (simp add: check_hi)
qed

lemma stub_ctx_audit_down_sel [simp]:
  "clock stub_ctx_audit_down = 10" "fetch_ok stub_ctx_audit_down" "update_ok stub_ctx_audit_down"
  "\<not> insert_ok stub_ctx_audit_down"
  by (simp_all add: stub_ctx_audit_down_def stub_ctx_def)

lemma stub_bumped:
  "(stub_state [stub_row 1 ''k1'' u m e])\<lparr>api_keys := bump_uses 1 (api_keys (stub_state [stub_row 1 ''k1'' u m e]))\<rparr>
     = stub_state [stub_row 1 ''k1'' (u + 1) m e]"
  by (simp add: stub_state_def bump_uses_def stub_row_def)

lemma stub_verify_ok:
  "fetch_ok c \<Longrightarrow> update_ok c \<Longrightarrow> clock c = 10 \<Longrightarrow>
   verify stub_lib c ''k1'' (stub_state [stub_row 1 ''k1'' 0 5 1000]) =
     (Inr (''a@b.c'', 1), stub_state [stub_row 1 ''k1'' 1 5 1000])"
  using verify_success [of c stub_lib "''k1''" "stub_state [stub_row 1 ''k1'' 0 5 1000]"
      "stub_row 1 ''k1'' 0 5 1000"]
  by (simp add: stub_bumped)

text \<open>
  Claim C8, as stated, fails: a request with a policy-violating prompt and no credential, or
  a credential that matches nothing, gets the policy error 400, not a credential error.
\<close>

theorem policy_error_before_credential_error:
  "ask stub_lib (stub_ctx 10) \<lparr>authorization = None, prompt = ''hack''\<rparr>
       (stub_state [stub_row 1 ''k1'' 0 5 1000]) =
     (Inl (HTTPException 400 ''Prompt blocked by policy''), stub_state [stub_row 1 ''k1'' 0 5 1000])
   \<and> ask stub_lib (stub_ctx 10) \<lparr>authorization = Some ''other'', prompt = ''hack''\<rparr>
       (stub_state [stub_row 1 ''k1'' 0 5 1000]) =
     (Inl (HTTPException 400 ''Prompt blocked by policy''), stub_state [stub_row 1 ''k1'' 0 5 1000])"
  by (simp add: ask_policy check_hack)

text \<open>
  Claim C8, amended. The handler runs the content policy filter first, then the test for a
  missing credential, then verification with its expiry and quota tests and the increment,
  then the audit write, then the downstream brains. So a policy violation is the result
  whatever the credential is; a verification error leaves the state as it was; a failed audit
  write ends the request after the increment and before the brains have seen the prompt; and
  a request that passes them all returns the answers with the state the audit write and then
  \<open>SyraAI\<close> have left.
\<close>

theorem ask_step_order:
  "(check_prompt (prompt rq) = Inl e \<longrightarrow> ask l c rq s = (Inl e, s))
   \<and> (check_prompt (prompt rq) = Inr () \<and> (authorization rq = None \<or> authorization rq = Some []) \<longrightarrow>
        ask l c rq s = (Inl (HTTPException 401 ''Missing API key''), s))
   \<and> (check_prompt (prompt rq) = Inr () \<and> authorization rq = Some key \<and> key \<noteq> [] \<longrightarrow>
        (verify l c key s = (Inl e', s1) \<longrightarrow> ask l c rq s = (Inl e', s) \<and> s1 = s)
      \<and> (verify l c key s = (Inr (em, k), s1) \<and> \<not> insert_ok c \<longrightarrow>
           ask l c rq s = (Inl Unhandled, s1) \<and> audit_logs s1 = audit_logs s \<and>
           short_memory s1 = short_memory s \<and> long_memory s1 = long_memory s)
      \<and> (verify l c key s = (Inr (em, k), s1) \<and> insert_ok c \<longrightarrow>
           ask l c rq s =
             (Inr \<lparr>vetra = vetra_respond em (prompt rq),
                    syra = fst (syra_respond em (prompt rq)
                      (snd (record_audit l c k em ''/ask''
                              (prompt_meta (prompt rq)) s1))),
                    user = em, time = utcnow c\<rparr>,
              snd (syra_respond em (prompt rq)
                     (snd (record_audit l c k em ''/ask''
                             (prompt_meta (prompt rq)) s1))))))"
proof (intro conjI impI)
  assume "check_prompt (prompt rq) = Inl e"
  then show "ask l c rq s = (Inl e, s)" by (rule ask_policy)
next
  assume "check_prompt (prompt rq) = Inr () \<and> (authorization rq = None \<or> authorization rq = Some [])"
  then show "ask l c rq s = (Inl (HTTPException 401 ''Missing API key''), s)"
    by (simp add: ask_missing)
next
  assume a: "check_prompt (prompt rq) = Inr () \<and> authorization rq = Some key \<and> key \<noteq> []"
    and v: "verify l c key s = (Inl e', s1)"
  from verify_error_cases [OF v] show "s1 = s" by simp
  with a v show "ask l c rq s = (Inl e', s)" by (simp add: ask_verify)
next
  assume a: "check_prompt (prompt rq) = Inr () \<and> authorization rq = Some key \<and> key \<noteq> []"
    and v: "verify l c key s = (Inr (em, k), s1) \<and> \<not> insert_ok c"
  from a v show "ask l c rq s = (Inl Unhandled, s1)" by (simp add: ask_audit_fails)
  from v verify_keeps_rest [of l c key s "Inr (em, k)" s1]
  show "audit_logs s1 = audit_logs s" "short_memory s1 = short_memory s"
    "long_memory s1 = long_memory s" by simp_all
next
  assume a: "check_prompt (prompt rq) = Inr () \<and> authorization rq = Some key \<and> key \<noteq> []"
    and v: "verify l c key s = (Inr (em, k), s1) \<and> insert_ok c"
  then show "ask l c rq s =
             (Inr \<lparr>vetra = vetra_respond em (prompt rq),
                    syra = fst (syra_respond em (prompt rq)
                      (snd (record_audit l c k em ''/ask''
                              (prompt_meta (prompt rq)) s1))),
                    user = em, time = utcnow c\<rparr>,
              snd (syra_respond em (prompt rq)
                     (snd (record_audit l c k em ''/ask''
                             (prompt_meta (prompt rq)) s1))))"
    by (simp add: ask_succeeds)
qed

theorem ask_step_order_witness:
  "ask stub_lib (stub_ctx 10) \<lparr>authorization = None, prompt = ''hack''\<rparr>
       (stub_state [stub_row 1 ''k1'' 0 5 1000]) =
     (Inl (HTTPException 400 ''Prompt blocked by policy''), stub_state [stub_row 1 ''k1'' 0 5 1000])
   \<and> ask stub_lib stub_ctx_audit_down \<lparr>authorization = Some ''k1'', prompt = ''hi''\<rparr>
       (stub_state [stub_row 1 ''k1'' 0 5 1000]) =
     (Inl Unhandled, stub_state [stub_row 1 ''k1'' 1 5 1000])
   \<and> long_memory (stub_state [stub_row 1 ''k1'' 1 5 1000]) = Map.empty
   \<and> snd (ask stub_lib (stub_ctx 10) \<lparr>authorization = Some ''k1'', prompt = ''hi''\<rparr>
        (stub_state [stub_row 1 ''k1'' 0 5 1000])) =
     (stub_state [stub_row 1 ''k1'' 1 5 1000])
       \<lparr>audit_logs := [\<lparr>audit_id = 1, api_key_id = 1, audit_email = ''a@b.c'',
                         endpoint = ''/ask'',
                         meta = encrypt_data stub_lib (fernet_encrypt (stub_ctx 10)) (prompt_meta ''hi''),
                         ts = 10\<rparr>],
        audit_logs_next := 2,
        short_memory := [''a@b.c'' \<mapsto> [''hi'']],
        long_memory := [''a@b.c'' \<mapsto> [''hi'']]\<rparr>"
proof (intro conjI)
  show "ask stub_lib (stub_ctx 10) \<lparr>authorization = None, prompt = ''hack''\<rparr>
       (stub_state [stub_row 1 ''k1'' 0 5 1000]) =
     (Inl (HTTPException 400 ''Prompt blocked by policy''), stub_state [stub_row 1 ''k1'' 0 5 1000])"
    using ask_step_order [where rq = "\<lparr>authorization = None, prompt = ''hack''\<rparr>"
        and e = "HTTPException 400 ''Prompt blocked by policy''" and l = stub_lib
        and c = "stub_ctx 10" and s = "stub_state [stub_row 1 ''k1'' 0 5 1000]"]
    by (simp add: check_hack)
next
  show "ask stub_lib stub_ctx_audit_down \<lparr>authorization = Some ''k1'', prompt = ''hi''\<rparr>
       (stub_state [stub_row 1 ''k1'' 0 5 1000]) =
     (Inl Unhandled, stub_state [stub_row 1 ''k1'' 1 5 1000])"
    using ask_step_order [where rq = "\<lparr>authorization = Some ''k1'', prompt = ''hi''\<rparr>"
        and l = stub_lib and c = stub_ctx_audit_down
        and s = "stub_state [stub_row 1 ''k1'' 0 5 1000]" and key = "''k1''"
        and em = "''a@b.c''" and k = 1 and ?s1.0 = "stub_state [stub_row 1 ''k1'' 1 5 1000]"]
    by (simp add: check_hi stub_verify_ok)
next
  show "long_memory (stub_state [stub_row 1 ''k1'' 1 5 1000]) = Map.empty"
    by (simp add: stub_state_def initial_def)
next
  have "ask stub_lib (stub_ctx 10) \<lparr>authorization = Some ''k1'', prompt = ''hi''\<rparr>
          (stub_state [stub_row 1 ''k1'' 0 5 1000]) =
        (Inr \<lparr>vetra = vetra_respond ''a@b.c'' ''hi'',
               syra = fst (syra_respond ''a@b.c'' ''hi''
                 (snd (record_audit stub_lib (stub_ctx 10) 1 ''a@b.c'' ''/ask''
                         (prompt_meta ''hi'')
                         (stub_state [stub_row 1 ''k1'' 1 5 1000])))),
               user = ''a@b.c'', time = utcnow (stub_ctx 10)\<rparr>,
         snd (syra_respond ''a@b.c'' ''hi''
                (snd (record_audit stub_lib (stub_ctx 10) 1 ''a@b.c'' ''/ask''
                        (prompt_meta ''hi'')
                        (stub_state [stub_row 1 ''k1'' 1 5 1000])))))"
    using ask_step_order [where rq = "\<lparr>authorization = Some ''k1'', prompt = ''hi''\<rparr>"
        and l = stub_lib and c = "stub_ctx 10"
        and s = "stub_state [stub_row 1 ''k1'' 0 5 1000]" and key = "''k1''"
        and em = "''a@b.c''" and k = 1 and ?s1.0 = "stub_state [stub_row 1 ''k1'' 1 5 1000]"]
    by (simp add: check_hi stub_verify_ok)
  then show "snd (ask stub_lib (stub_ctx 10) \<lparr>authorization = Some ''k1'', prompt = ''hi''\<rparr>
        (stub_state [stub_row 1 ''k1'' 0 5 1000])) =
     (stub_state [stub_row 1 ''k1'' 1 5 1000])
       \<lparr>audit_logs := [\<lparr>audit_id = 1, api_key_id = 1, audit_email = ''a@b.c'',
                         endpoint = ''/ask'',
                         meta = encrypt_data stub_lib (fernet_encrypt (stub_ctx 10)) (prompt_meta ''hi''),
                         ts = 10\<rparr>],
        audit_logs_next := 2,
        short_memory := [''a@b.c'' \<mapsto> [''hi'']],
        long_memory := [''a@b.c'' \<mapsto> [''hi'']]\<rparr>"
    by (simp add: record_audit_def syra_respond_def Let_def prompt_meta_def
      setdefault_append_def last10_def stub_ctx_def stub_state_def initial_def)
qed

section \<open>Invariants of a run\<close>

lemma create_key_cases:
  "snd (create_key l c s) = s \<or>
   (\<exists>row. row_id row = api_keys_next s \<and> uses row = 0 \<and> max_uses row = API_KEY_MAX_USES \<and>
      \<not> revoked row \<and>
      snd (create_key l c s) = s\<lparr>api_keys := api_keys s @ [row], api_keys_next := api_keys_next s + 1\<rparr>)"
proof (cases "\<exists>em h. session_email c = Some em \<and> em \<noteq> [] \<and>
    hash_key l (generate_api_key (token c)) (salt c) = Some h \<and> insert_key_ok c")
  case True
  then obtain em h where em: "session_email c = Some em" "em \<noteq> []"
    "hash_key l (generate_api_key (token c)) (salt c) = Some h" "insert_key_ok c" by auto
  let ?row = "\<lparr>row_id = api_keys_next s, email = em, key_hash = Some h,
      uses = 0, max_uses = API_KEY_MAX_USES, revoked = False,
      expires_at = now c + API_KEY_EXPIRE_DAYS * 24 * 60 * 60, created = now c,
      bound_ip = client_host c\<rparr>"
  have "snd (create_key l c s) =
      s\<lparr>api_keys := api_keys s @ [?row], api_keys_next := api_keys_next s + 1\<rparr>"
    using em by (simp add: create_key_def Let_def)
  then show ?thesis
    by (intro disjI2 exI [of _ ?row]) simp
next
  case False
  then have "snd (create_key l c s) = s"
    by (auto simp: create_key_def Let_def split: option.splits)
  then show ?thesis ..
qed

lemma verify_cases:
  "snd (verify l c key s) = s \<or>
   (\<exists>r. first_match l key (fetch c s) = Inr (Some r) \<and> uses r < max_uses r \<and>
      \<not> expires_at r < clock c \<and> fst (verify l c key s) = Inr (email r, row_id r) \<and>
      snd (verify l c key s) = s\<lparr>api_keys := bump_uses (row_id r) (api_keys s)\<rparr>)"
proof (cases "first_match l key (fetch c s)")
  case (Inl e)
  then show ?thesis by (simp add: verify_def scan_rows_first)
next
  case (Inr m)
  show ?thesis
  proof (cases m)
    case None
    with Inr show ?thesis by (simp add: verify_def scan_rows_first)
  next
    case (Some r)
    with Inr show ?thesis by (simp add: verify_def scan_rows_first)
  qed
qed

lemma ask_keys:
  "api_keys_next (snd (ask l c rq s)) = api_keys_next s \<and>
   (api_keys (snd (ask l c rq s)) = api_keys s \<or>
    (\<exists>key. api_keys (snd (ask l c rq s)) = api_keys (snd (verify l c key s))))"
proof (cases "check_prompt (prompt rq)")
  case (Inl e)
  then show ?thesis by (simp add: ask_def)
next
  case (Inr u)
  show ?thesis
  proof (cases "authorization rq = None \<or> authorization rq = Some []")
    case True
    with Inr show ?thesis by (auto simp: ask_def)
  next
    case False
    then obtain key where key: "authorization rq = Some key" "key \<noteq> []" by auto
    obtain res s1 where v: "verify l c key s = (res, s1)" by (cases "verify l c key s")
    from verify_keeps_rest [OF v] have n: "api_keys_next s1 = api_keys_next s" by simp
    have "api_keys_next (snd (ask l c rq s)) = api_keys_next s1 \<and>
          api_keys (snd (ask l c rq s)) = api_keys s1"
      using Inr key v
      by (cases res)
         (auto simp: ask_def record_audit_def syra_respond_def split_beta Let_def split: if_splits)
    with n v show ?thesis by (metis snd_conv)
  qed
qed

lemma pinned_bump:
  assumes "\<And>x. P x \<Longrightarrow> P (x\<lparr>uses := uses x + 1\<rparr>)" "pinned k P s"
  shows "pinned k P (s\<lparr>api_keys := bump_uses j (api_keys s)\<rparr>)"
  using assms by (auto simp: pinned_def bump_uses_def list_all_iff)

lemma pinned_same_keys:
  "api_keys s' = api_keys s \<Longrightarrow> api_keys_next s' = api_keys_next s \<Longrightarrow>
     pinned k P s \<Longrightarrow> pinned k P s'"
  by (simp add: pinned_def)

lemma step_pinned:
  assumes up: "\<And>x. P x \<Longrightarrow> P (x\<lparr>uses := uses x + 1\<rparr>)"
    and rv: "\<And>x. P x \<Longrightarrow> P (x\<lparr>revoked := True\<rparr>)"
    and st: "step l s s'" and pin: "pinned k P s"
  shows "pinned k P s'"
  using st
proof cases
  case (issue c)
  from create_key_cases [of l c s] pin show ?thesis
    unfolding issue by (auto simp: pinned_def)
next
  case (handle c rq)
  from ask_keys [of l c rq s]
  have n: "api_keys_next s' = api_keys_next s"
    and k: "api_keys s' = api_keys s \<or> (\<exists>key. api_keys s' = api_keys (snd (verify l c key s)))"
    unfolding handle by simp_all
  from k show ?thesis
  proof
    assume "api_keys s' = api_keys s"
    then show ?thesis using n pin by (rule pinned_same_keys)
  next
    assume "\<exists>key. api_keys s' = api_keys (snd (verify l c key s))"
    then obtain key where e: "api_keys s' = api_keys (snd (verify l c key s))" ..
    from verify_cases [of l c key s] show ?thesis
    proof
      assume "snd (verify l c key s) = s"
      with e have "api_keys s' = api_keys s" by simp
      then show ?thesis using n pin by (rule pinned_same_keys)
    next
      assume "\<exists>r. first_match l key (fetch c s) = Inr (Some r) \<and> uses r < max_uses r \<and>
        \<not> expires_at r < clock c \<and> fst (verify l c key s) = Inr (email r, row_id r) \<and>
        snd (verify l c key s) = s\<lparr>api_keys := bump_uses (row_id r) (api_keys s)\<rparr>"
      then obtain r :: api_key_row where
        "snd (verify l c key s) = s\<lparr>api_keys := bump_uses (row_id r) (api_keys s)\<rparr>" by auto
      with e have "api_keys s' = api_keys (s\<lparr>api_keys := bump_uses (row_id r) (api_keys s)\<rparr>)"
        by simp
      moreover have "api_keys_next s' = api_keys_next (s\<lparr>api_keys := bump_uses (row_id r) (api_keys s)\<rparr>)"
        using n by simp
      ultimately show ?thesis
        using pinned_bump [of P k s "row_id r", OF up pin] by (rule pinned_same_keys)
    qed
  qed
next
  case (revocation j)
  with pin rv show ?thesis
    by (auto simp: pinned_def revoke_def list_all_iff)
qed

lemma steps_pinned:
  assumes "\<And>x. P x \<Longrightarrow> P (x\<lparr>uses := uses x + 1\<rparr>)" "\<And>x. P x \<Longrightarrow> P (x\<lparr>revoked := True\<rparr>)"
    and "(step l)\<^sup>*\<^sup>* s s'" and "pinned k P s"
  shows "pinned k P s'"
  using assms(3,4)
proof (induction rule: rtranclp_induct)
  case base
  then show ?case .
next
  case (step y z)
  with step_pinned [OF assms(1,2), of l y z k] show ?case by simp
qed

lemma sound_bump:
  assumes "sound s" "r \<in> set (api_keys s)" "uses r < max_uses r"
  shows "sound (s\<lparr>api_keys := bump_uses (row_id r) (api_keys s)\<rparr>)"
proof -
  from assms(1) have d: "distinct (map row_id (api_keys s))"
    and b: "list_all (\<lambda>r. row_id r < api_keys_next s) (api_keys s)"
    and q: "list_all (\<lambda>r. uses r \<le> max_uses r) (api_keys s)"
    by (simp_all add: sound_def ids_fresh_def within_quota_def)
  from d have inj: "inj_on row_id (set (api_keys s))" by (simp add: distinct_map)
  have same: "x = r" if "x \<in> set (api_keys s)" "row_id x = row_id r" for x
    using inj that assms(2) by (auto dest: inj_onD)
  have "uses x + 1 \<le> max_uses x" if "x \<in> set (api_keys s)" "row_id x = row_id r" for x
    using same [OF that] assms(3) by simp
  with q have "list_all (\<lambda>r. uses r \<le> max_uses r) (bump_uses (row_id r) (api_keys s))"
    by (auto simp: bump_uses_def list_all_iff)
  moreover have "list_all (\<lambda>r. row_id r < api_keys_next s) (bump_uses (row_id r) (api_keys s))"
    using b by (auto simp: bump_uses_def list_all_iff)
  ultimately show ?thesis
    using d by (simp add: sound_def ids_fresh_def within_quota_def)
qed

lemma sound_same_keys:
  "api_keys s' = api_keys s \<Longrightarrow> api_keys_next s' = api_keys_next s \<Longrightarrow> sound s \<Longrightarrow> sound s'"
  by (simp add: sound_def ids_fresh_def within_quota_def)

lemma sound_verify:
  assumes "sound s"
  shows "sound (snd (verify l c key s))"
  using verify_cases [of l c key s]
proof
  assume "snd (verify l c key s) = s"
  with assms show ?thesis by simp
next
  assume "\<exists>r. first_match l key (fetch c s) = Inr (Some r) \<and> uses r < max_uses r \<and>
    \<not> expires_at r < clock c \<and> fst (verify l c key s) = Inr (email r, row_id r) \<and>
    snd (verify l c key s) = s\<lparr>api_keys := bump_uses (row_id r) (api_keys s)\<rparr>"
  then obtain r where f: "first_match l key (fetch c s) = Inr (Some r)"
    and u: "uses r < max_uses r"
    and e: "snd (verify l c key s) = s\<lparr>api_keys := bump_uses (row_id r) (api_keys s)\<rparr>"
    by blast
  from first_match_active [OF f] have "r \<in> set (api_keys s)" by simp
  with assms u show ?thesis unfolding e by (simp add: sound_bump)
qed

lemma step_sound:
  assumes "step l s s'" and "sound s"
  shows "sound s'"
  using assms(1)
proof cases
  case (issue c)
  from create_key_cases [of l c s] show ?thesis
  proof
    assume "snd (create_key l c s) = s"
    with issue assms(2) show ?thesis by simp
  next
    assume "\<exists>row. row_id row = api_keys_next s \<and> uses row = 0 \<and> max_uses row = API_KEY_MAX_USES \<and>
      \<not> revoked row \<and>
      snd (create_key l c s) = s\<lparr>api_keys := api_keys s @ [row], api_keys_next := api_keys_next s + 1\<rparr>"
    then obtain row where row: "row_id row = api_keys_next s" "uses row = 0"
      "max_uses row = API_KEY_MAX_USES"
      and s': "s' = s\<lparr>api_keys := api_keys s @ [row], api_keys_next := api_keys_next s + 1\<rparr>"
      unfolding issue by blast
    from assms(2) have d: "distinct (map row_id (api_keys s))"
      and b: "\<forall>x\<in>set (api_keys s). row_id x < api_keys_next s"
      and q: "\<forall>x\<in>set (api_keys s). uses x \<le> max_uses x"
      by (simp_all add: sound_def ids_fresh_def within_quota_def list_all_iff)
    from b row(1) have new: "row_id row \<notin> row_id ` set (api_keys s)" by auto
    have "ids_fresh s'"
      using d b new row(1) unfolding s' by (auto simp: ids_fresh_def list_all_iff)
    moreover have "within_quota s'"
      using q row(2,3) unfolding s' by (simp add: within_quota_def list_all_iff API_KEY_MAX_USES_def)
    ultimately show ?thesis by (simp add: sound_def)
  qed
next
  case (handle c rq)
  from ask_keys [of l c rq s]
  have n: "api_keys_next s' = api_keys_next s"
    and k: "api_keys s' = api_keys s \<or> (\<exists>key. api_keys s' = api_keys (snd (verify l c key s)))"
    unfolding handle by simp_all
  from k show ?thesis
  proof
    assume "api_keys s' = api_keys s"
    then show ?thesis using n assms(2) by (rule sound_same_keys)
  next
    assume "\<exists>key. api_keys s' = api_keys (snd (verify l c key s))"
    then obtain key where e: "api_keys s' = api_keys (snd (verify l c key s))" ..
    obtain res s1 where v: "verify l c key s = (res, s1)" by (cases "verify l c key s")
    from verify_keeps_rest [OF v] n have "api_keys_next s' = api_keys_next (snd (verify l c key s))"
      using v by simp
    with e show ?thesis using sound_verify [OF assms(2)] by (rule sound_same_keys)
  qed
next
  case (revocation j)
  have "map row_id (map (\<lambda>r. if row_id r = j then r\<lparr>revoked := True\<rparr> else r) rows) =
      map row_id rows" for rows
    by (induction rows) simp_all
  then have "map row_id (api_keys (revoke j s)) = map row_id (api_keys s)"
    by (simp add: revoke_def)
  moreover have "api_keys_next (revoke j s) = api_keys_next s"
    by (simp add: revoke_def)
  moreover have "list_all P (api_keys (revoke j s))"
    if "list_all P (api_keys s)" "\<And>x. P x \<Longrightarrow> P (x\<lparr>revoked := True\<rparr>)" for P
    using that by (auto simp: revoke_def list_all_iff)
  ultimately show ?thesis
    using assms(2) unfolding revocation
    by (simp add: sound_def ids_fresh_def within_quota_def)
qed

lemma steps_sound: "(step l)\<^sup>*\<^sup>* s s' \<Longrightarrow> sound s \<Longrightarrow> sound s'"
  by (induction rule: rtranclp_induct) (auto intro: step_sound)

lemma sound_initial: "sound initial"
  by (simp add: sound_def ids_fresh_def within_quota_def initial_def)

lemma verify_success_row:
  assumes "fst (verify l c key s) = Inr (em, k)"
  shows "\<exists>r. first_match l key (fetch c s) = Inr (Some r) \<and> row_id r = k \<and> email r = em"
proof (cases "first_match l key (fetch c s)")
  case (Inl e)
  with assms show ?thesis by (simp add: verify_def scan_rows_first split: if_splits)
next
  case (Inr m)
  show ?thesis
  proof (cases m)
    case None
    with Inr assms show ?thesis by (simp add: verify_def scan_rows_first split: if_splits)
  next
    case (Some r)
    with Inr assms show ?thesis by (simp add: verify_def scan_rows_first split: if_splits)
  qed
qed

lemma revoke_twice: "revoke k (revoke k s) = revoke k s"
proof -
  let ?f = "\<lambda>r. if row_id r = k then r\<lparr>revoked := True\<rparr> else r"
  have "map ?f (map ?f rows) = map ?f rows" for rows
    by (induction rows) simp_all
  then show ?thesis by (simp add: revoke_def)
qed

lemma pinned_revoke:
  assumes "k < api_keys_next s"
  shows "pinned k revoked (revoke k s)"
proof -
  have "list_all (\<lambda>x. row_id x \<noteq> k \<or> revoked x)
      (map (\<lambda>r. if row_id r = k then r\<lparr>revoked := True\<rparr> else r) rows)" for rows
    by (induction rows) simp_all
  with assms show ?thesis by (simp add: pinned_def revoke_def)
qed

lemma pinned_revoked_verify:
  assumes "pinned k revoked s"
  shows "fst (verify l c key s) \<noteq> Inr (em, k)"
proof
  assume "fst (verify l c key s) = Inr (em, k)"
  from verify_success_row [OF this] obtain r where
    f: "first_match l key (fetch c s) = Inr (Some r)" and k: "row_id r = k" by blast
  from first_match_active [OF f] have "r \<in> set (api_keys s)" "\<not> revoked r" by simp_all
  with assms k show False by (auto simp: pinned_def list_all_iff)
qed


text \<open>
  Claim C3. In every state reached from the empty database by issuing credentials, handling
  requests and revoking, each credential has \<open>uses \<le> max_uses\<close>; the same holds for runs
  from any state with fresh identifiers in which it holds. \<open>create_key\<close> either changes
  nothing or appends one row with \<open>uses = 0\<close>; verification either changes nothing or
  increments the rows with the identifier of the matched row, whose \<open>uses\<close> it found
  below \<open>max_uses\<close>.
\<close>

theorem uses_never_exceed_max_uses:
  "((step l)\<^sup>*\<^sup>* initial s \<longrightarrow> list_all (\<lambda>r. uses r \<le> max_uses r) (api_keys s))
   \<and> (ids_fresh s0 \<and> within_quota s0 \<and> (step l)\<^sup>*\<^sup>* s0 s \<longrightarrow>
        list_all (\<lambda>r. uses r \<le> max_uses r) (api_keys s))
   \<and> (snd (create_key l cc s) = s \<or>
        (\<exists>row. row_id row = api_keys_next s \<and> uses row = 0 \<and> max_uses row = API_KEY_MAX_USES \<and>
           \<not> revoked row \<and>
           snd (create_key l cc s) =
             s\<lparr>api_keys := api_keys s @ [row], api_keys_next := api_keys_next s + 1\<rparr>))
   \<and> (snd (verify l c key s) = s \<or>
        (\<exists>r. first_match l key (fetch c s) = Inr (Some r) \<and> uses r < max_uses r \<and>
           \<not> expires_at r < clock c \<and> fst (verify l c key s) = Inr (email r, row_id r) \<and>
           snd (verify l c key s) = s\<lparr>api_keys := bump_uses (row_id r) (api_keys s)\<rparr>))"
proof (intro conjI impI)
  show "snd (create_key l cc s) = s \<or>
        (\<exists>row. row_id row = api_keys_next s \<and> uses row = 0 \<and> max_uses row = API_KEY_MAX_USES \<and>
           \<not> revoked row \<and>
           snd (create_key l cc s) =
             s\<lparr>api_keys := api_keys s @ [row], api_keys_next := api_keys_next s + 1\<rparr>)"
    by (rule create_key_cases)
next
  show "snd (verify l c key s) = s \<or>
        (\<exists>r. first_match l key (fetch c s) = Inr (Some r) \<and> uses r < max_uses r \<and>
           \<not> expires_at r < clock c \<and> fst (verify l c key s) = Inr (email r, row_id r) \<and>
           snd (verify l c key s) = s\<lparr>api_keys := bump_uses (row_id r) (api_keys s)\<rparr>)"
    by (rule verify_cases)
next
  assume "(step l)\<^sup>*\<^sup>* initial s"
  then have "sound s" using sound_initial by (rule steps_sound)
  then show "list_all (\<lambda>r. uses r \<le> max_uses r) (api_keys s)"
    by (simp add: sound_def within_quota_def)
next
  assume a: "ids_fresh s0 \<and> within_quota s0 \<and> (step l)\<^sup>*\<^sup>* s0 s"
  then have "sound s0" by (simp add: sound_def)
  moreover from a have "(step l)\<^sup>*\<^sup>* s0 s" by simp
  ultimately have "sound s" by (rule steps_sound [rotated])
  then show "list_all (\<lambda>r. uses r \<le> max_uses r) (api_keys s)"
    by (simp add: sound_def within_quota_def)
qed

lemma stub_hash_key: "hash_key stub_lib ''vetra_t'' stub_salt = Some (stub_salt @ ''vetra_t'')"
  by (simp add: hash_key_def hashpw_def stub_lib_def)

lemma stub_create_key: "snd (create_key stub_lib stub_create initial) = stub_issued"
  by (simp add: create_key_def stub_create_def initial_def Let_def stub_hash_key
      generate_api_key_def API_KEY_MAX_USES_def API_KEY_EXPIRE_DAYS_def stub_issued_def stub_row_def)

lemma stub_issued_fetch [simp]: "fetch c stub_issued = [stub_row 1 ''vetra_t'' 0 1000 2592000]"
  by (simp add: fetch_def active_def stub_issued_def)

lemma stub_issued_verify:
  "verify stub_lib (stub_ctx 10) ''vetra_t'' stub_issued =
     (Inr (''a@b.c'', 1),
      stub_issued\<lparr>api_keys := bump_uses 1 (api_keys stub_issued)\<rparr>)"
  using verify_success [of "stub_ctx 10" stub_lib "''vetra_t''" stub_issued
      "stub_row 1 ''vetra_t'' 0 1000 2592000"]
  by simp

lemma stub_issued_used:
  "api_keys (snd (ask stub_lib (stub_ctx 10) \<lparr>authorization = Some ''vetra_t'', prompt = ''hi''\<rparr>
       stub_issued)) = [stub_row 1 ''vetra_t'' 1 1000 2592000]"
  using ask_succeeds [of "\<lparr>authorization = Some ''vetra_t'', prompt = ''hi''\<rparr>" "''vetra_t''"
      stub_lib "stub_ctx 10" stub_issued "''a@b.c''" 1, OF _ _ _ stub_issued_verify]
  by (simp add: check_hi record_audit_def syra_respond_def Let_def bump_uses_def
      stub_issued_def stub_row_def)

theorem uses_never_exceed_max_uses_witness:
  "list_all (\<lambda>r. uses r \<le> max_uses r)
     (api_keys (snd (ask stub_lib (stub_ctx 10) \<lparr>authorization = Some ''vetra_t'', prompt = ''hi''\<rparr>
        (snd (create_key stub_lib stub_create initial)))))
   \<and> map uses
     (api_keys (snd (ask stub_lib (stub_ctx 10) \<lparr>authorization = Some ''vetra_t'', prompt = ''hi''\<rparr>
        (snd (create_key stub_lib stub_create initial))))) = [1]"
proof -
  let ?s1 = "snd (create_key stub_lib stub_create initial)"
  let ?s2 = "snd (ask stub_lib (stub_ctx 10) \<lparr>authorization = Some ''vetra_t'', prompt = ''hi''\<rparr> ?s1)"
  have "step stub_lib initial ?s1" by (rule step.issue)
  then have "(step stub_lib)\<^sup>*\<^sup>* initial ?s1" by (rule r_into_rtranclp)
  moreover have "step stub_lib ?s1 ?s2" by (rule step.handle)
  ultimately have run: "(step stub_lib)\<^sup>*\<^sup>* initial ?s2" by (rule rtranclp.rtrancl_into_rtrancl)
  have "list_all (\<lambda>r. uses r \<le> max_uses r) (api_keys ?s2)"
    by (rule uses_never_exceed_max_uses [of stub_lib ?s2, THEN conjunct1, THEN mp, OF run])
  moreover have "map uses (api_keys ?s2) = [1]"
    unfolding stub_create_key stub_issued_used by simp
  ultimately show ?thesis by (rule conjI)
qed

section \<open>Revocation and the failed audit write\<close>

text \<open>
  Claim C9. Revoking twice gives the state that revoking once gives (the operation has no
  error). After an identifier that has been issued is revoked, in every state a run reaches
  from there each row with that identifier is still revoked and no verification succeeds
  for it.
\<close>

theorem revoke_idempotent_and_final:
  "revoke k (revoke k s) = revoke k s
   \<and> (k < api_keys_next s \<and> (step l)\<^sup>*\<^sup>* (revoke k s) s' \<longrightarrow>
        list_all (\<lambda>x. row_id x \<noteq> k \<or> revoked x) (api_keys s') \<and>
        fst (verify l c key s') \<noteq> Inr (em, k))"
proof (intro conjI impI)
  show "revoke k (revoke k s) = revoke k s" by (rule revoke_twice)
next
  assume a: "k < api_keys_next s \<and> (step l)\<^sup>*\<^sup>* (revoke k s) s'"
  then have "pinned k revoked (revoke k s)" by (simp add: pinned_revoke)
  with a have p: "pinned k revoked s'"
    using steps_pinned [of revoked l "revoke k s" s' k] by simp
  then show "list_all (\<lambda>x. row_id x \<noteq> k \<or> revoked x) (api_keys s')"
    by (simp add: pinned_def)
  from p show "fst (verify l c key s') \<noteq> Inr (em, k)"
    by (rule pinned_revoked_verify)
qed

lemma stub_revoked:
  "revoke 1 (stub_state [stub_row 1 ''k1'' 0 5 1000]) =
     stub_state [(stub_row 1 ''k1'' 0 5 1000)\<lparr>revoked := True\<rparr>]"
  by (simp add: revoke_def stub_state_def)

lemma stub_revoked_ask:
  "ask stub_lib (stub_ctx 10) \<lparr>authorization = Some ''k1'', prompt = ''hi''\<rparr>
       (stub_state [(stub_row 1 ''k1'' 0 5 1000)\<lparr>revoked := True\<rparr>]) =
     (Inl (HTTPException 403 ''Invalid API key''),
      stub_state [(stub_row 1 ''k1'' 0 5 1000)\<lparr>revoked := True\<rparr>])"
  by (simp add: ask_verify verify_invalid check_hi)

theorem revoke_idempotent_and_final_witness:
  "revoke 1 (revoke 1 (stub_state [stub_row 1 ''k1'' 0 5 1000])) =
     revoke 1 (stub_state [stub_row 1 ''k1'' 0 5 1000])
   \<and> fst (verify stub_lib (stub_ctx 20) ''k1''
        (snd (ask stub_lib (stub_ctx 10) \<lparr>authorization = Some ''k1'', prompt = ''hi''\<rparr>
           (revoke 1 (stub_state [stub_row 1 ''k1'' 0 5 1000]))))) \<noteq> Inr (''a@b.c'', 1)
   \<and> fst (verify stub_lib (stub_ctx 20) ''k1''
        (snd (ask stub_lib (stub_ctx 10) \<lparr>authorization = Some ''k1'', prompt = ''hi''\<rparr>
           (revoke 1 (stub_state [stub_row 1 ''k1'' 0 5 1000]))))) =
       Inl (HTTPException 403 ''Invalid API key'')"
proof -
  let ?s = "stub_state [stub_row 1 ''k1'' 0 5 1000]"
  let ?s' = "snd (ask stub_lib (stub_ctx 10) \<lparr>authorization = Some ''k1'', prompt = ''hi''\<rparr>
           (revoke 1 ?s))"
  have n: "1 < api_keys_next ?s" by (simp add: stub_state_def)
  have "step stub_lib (revoke 1 ?s) ?s'" by (rule step.handle)
  then have run: "(step stub_lib)\<^sup>*\<^sup>* (revoke 1 ?s) ?s'" by (rule r_into_rtranclp)
  note t = revoke_idempotent_and_final [of 1 ?s stub_lib ?s' "stub_ctx 20" "''k1''" "''a@b.c''"]
  from t have "revoke 1 (revoke 1 ?s) = revoke 1 ?s" by (rule conjunct1)
  moreover from t n run have "fst (verify stub_lib (stub_ctx 20) ''k1'' ?s') \<noteq> Inr (''a@b.c'', 1)"
    by blast
  moreover have "fst (verify stub_lib (stub_ctx 20) ''k1'' ?s') =
       Inl (HTTPException 403 ''Invalid API key'')"
    unfolding stub_revoked stub_revoked_ask by (simp add: verify_invalid)
  ultimately show ?thesis by blast
qed

lemma bump_only_row:
  assumes "distinct (map row_id rows)" "r \<in> set rows"
  shows "list_all (\<lambda>x. row_id x \<noteq> row_id r \<or> uses r + 1 \<le> uses x) (bump_uses (row_id r) rows)"
proof -
  from assms(1) have inj: "inj_on row_id (set rows)" by (simp add: distinct_map)
  have "uses r + 1 \<le> uses (x\<lparr>uses := uses x + 1\<rparr>)" if "x \<in> set rows" "row_id x = row_id r" for x
    using inj that assms(2) by (auto dest: inj_onD)
  then show ?thesis
    by (auto simp: bump_uses_def list_all_iff)
qed

text \<open>
  Claim C10. When a request passes the filter and verification, and the audit \<open>INSERT\<close>
  then fails, \<open>ask\<close> ends with the unhandled storage error; the state it leaves has the
  matched credential's \<open>uses\<close> incremented (the row is still active and accepted, and
  where it is the one credential of the plaintext the next scan finds it in any order) and
  the audit log as it was. No later
  operation takes the increment back: in every state a run reaches from there the
  credential's \<open>uses\<close> is at least the incremented value.
\<close>

theorem audit_failure_keeps_increment:
  assumes "check_prompt (prompt rq) = Inr ()" and "authorization rq = Some key" and "key \<noteq> []"
    and "fetch_ok c" and "update_ok c" and "\<not> insert_ok c"
    and "first_match l key (fetch c s) = Inr (Some r)"
    and "\<not> expires_at r < clock c" and "uses r < max_uses r"
  shows "ask l c rq s = (Inl Unhandled, s\<lparr>api_keys := bump_uses (row_id r) (api_keys s)\<rparr>)
     \<and> r\<lparr>uses := uses r + 1\<rparr> \<in> set (active (snd (ask l c rq s)))
     \<and> row_matches l key (r\<lparr>uses := uses r + 1\<rparr>) = Some True
     \<and> (sole_match l key s r \<longrightarrow>
          first_match l key (fetch c' (snd (ask l c rq s))) = Inr (Some (r\<lparr>uses := uses r + 1\<rparr>)))
     \<and> audit_logs (snd (ask l c rq s)) = audit_logs s
     \<and> (ids_fresh s \<and> (step l)\<^sup>*\<^sup>* (snd (ask l c rq s)) s' \<longrightarrow>
          list_all (\<lambda>x. row_id x \<noteq> row_id r \<or> uses r + 1 \<le> uses x) (api_keys s'))"
proof -
  let ?s1 = "s\<lparr>api_keys := bump_uses (row_id r) (api_keys s)\<rparr>"
  have v: "verify l c key s = (Inr (email r, row_id r), ?s1)"
    using assms by (simp add: verify_success)
  have a: "ask l c rq s = (Inl Unhandled, ?s1)"
    using assms(1-3) v assms(6) by (rule ask_audit_fails)
  from first_match_active [OF assms(7)] have act: "r \<in> set (active s)"
    and acc: "row_matches l key r = Some True"
    by (simp_all add: active_def)
  from act have "r\<lparr>uses := uses r + 1\<rparr> \<in> set (bump_uses (row_id r) (active s))"
    by (rule bump_member)
  then have f: "r\<lparr>uses := uses r + 1\<rparr> \<in> set (active ?s1)"
    by (simp add: active_bump)
  from acc have g: "row_matches l key (r\<lparr>uses := uses r + 1\<rparr>) = Some True"
    by simp
  have h: "first_match l key (fetch c' ?s1) = Inr (Some (r\<lparr>uses := uses r + 1\<rparr>))"
    if "sole_match l key s r"
    using sole_match_bump [OF that] by (rule sole_match_first)
  have p: "list_all (\<lambda>x. row_id x \<noteq> row_id r \<or> uses r + 1 \<le> uses x) (api_keys s')"
    if fresh: "ids_fresh s" and run: "(step l)\<^sup>*\<^sup>* ?s1 s'"
  proof -
    from first_match_active [OF assms(7)] have mem: "r \<in> set (api_keys s)" by simp
    from fresh have d: "distinct (map row_id (api_keys s))"
      and b: "list_all (\<lambda>r. row_id r < api_keys_next s) (api_keys s)"
      by (simp_all add: ids_fresh_def)
    from b mem have "row_id r < api_keys_next s" by (simp add: list_all_iff)
    with bump_only_row [OF d mem] have "pinned (row_id r) (\<lambda>x. uses r + 1 \<le> uses x) ?s1"
      by (simp add: pinned_def)
    with run have "pinned (row_id r) (\<lambda>x. uses r + 1 \<le> uses x) s'"
      using steps_pinned [of "\<lambda>x. uses r + 1 \<le> uses x" l ?s1 s' "row_id r"] by simp
    then show ?thesis by (simp add: pinned_def)
  qed
  from a f g h p show ?thesis by simp
qed

theorem audit_failure_keeps_increment_witness:
  "ask stub_lib stub_ctx_audit_down \<lparr>authorization = Some ''k1'', prompt = ''hi''\<rparr>
       (stub_state [stub_row 1 ''k1'' 0 5 1000]) =
     (Inl Unhandled, stub_state [stub_row 1 ''k1'' 1 5 1000])
   \<and> audit_logs (snd (ask stub_lib stub_ctx_audit_down
        \<lparr>authorization = Some ''k1'', prompt = ''hi''\<rparr> (stub_state [stub_row 1 ''k1'' 0 5 1000]))) = []
   \<and> list_all (\<lambda>x. row_id x \<noteq> 1 \<or> 1 \<le> uses x)
        (api_keys (revoke 1 (snd (ask stub_lib stub_ctx_audit_down
           \<lparr>authorization = Some ''k1'', prompt = ''hi''\<rparr> (stub_state [stub_row 1 ''k1'' 0 5 1000])))))"
proof -
  let ?s = "stub_state [stub_row 1 ''k1'' 0 5 1000]"
  let ?rq = "\<lparr>authorization = Some ''k1'', prompt = ''hi''\<rparr>"
  let ?s1 = "snd (ask stub_lib stub_ctx_audit_down ?rq ?s)"
  have fresh: "ids_fresh ?s" by (simp add: ids_fresh_def stub_state_def)
  have "step stub_lib ?s1 (revoke 1 ?s1)" by (rule step.revocation)
  then have run: "(step stub_lib)\<^sup>*\<^sup>* ?s1 (revoke 1 ?s1)" by (rule r_into_rtranclp)
  have t: "ask stub_lib stub_ctx_audit_down ?rq ?s =
       (Inl Unhandled, ?s\<lparr>api_keys := bump_uses (row_id (stub_row 1 ''k1'' 0 5 1000)) (api_keys ?s)\<rparr>)
     \<and> (stub_row 1 ''k1'' 0 5 1000)\<lparr>uses := uses (stub_row 1 ''k1'' 0 5 1000) + 1\<rparr>
           \<in> set (active ?s1)
     \<and> row_matches stub_lib ''k1''
           ((stub_row 1 ''k1'' 0 5 1000)\<lparr>uses := uses (stub_row 1 ''k1'' 0 5 1000) + 1\<rparr>) = Some True
     \<and> (sole_match stub_lib ''k1'' ?s (stub_row 1 ''k1'' 0 5 1000) \<longrightarrow>
          first_match stub_lib ''k1'' (fetch (stub_ctx 20) ?s1) =
            Inr (Some ((stub_row 1 ''k1'' 0 5 1000)\<lparr>uses := uses (stub_row 1 ''k1'' 0 5 1000) + 1\<rparr>)))
     \<and> audit_logs ?s1 = audit_logs ?s
     \<and> (ids_fresh ?s \<and> (step stub_lib)\<^sup>*\<^sup>* ?s1 (revoke 1 ?s1) \<longrightarrow>
          list_all (\<lambda>x. row_id x \<noteq> row_id (stub_row 1 ''k1'' 0 5 1000) \<or>
                      uses (stub_row 1 ''k1'' 0 5 1000) + 1 \<le> uses x) (api_keys (revoke 1 ?s1)))"
    by (rule audit_failure_keeps_increment) (simp_all add: check_hi)
  from t have "ask stub_lib stub_ctx_audit_down ?rq ?s = (Inl Unhandled, stub_state [stub_row 1 ''k1'' 1 5 1000])"
    by (simp add: stub_bumped)
  moreover from t have "audit_logs ?s1 = []"
    by (simp add: stub_state_def initial_def)
  moreover have "list_all (\<lambda>x. row_id x \<noteq> 1 \<or> 1 \<le> uses x) (api_keys (revoke 1 ?s1))"
  proof -
    from t fresh run
    have "list_all (\<lambda>x. row_id x \<noteq> row_id (stub_row 1 ''k1'' 0 5 1000) \<or>
                      uses (stub_row 1 ''k1'' 0 5 1000) + 1 \<le> uses x) (api_keys (revoke 1 ?s1))"
      by blast
    then show ?thesis by simp
  qed
  ultimately show ?thesis by blast
qed


end
